theory Spec2Isabelle
  imports Complex_Main "HOL-Library.Sublist"
begin

section \<open>The sweep harness \<^verbatim>\<open>get_data.py\<close>\<close>

text \<open>
  The program is one Python function, \<^verbatim>\<open>process(mu)\<close>, and its caller
  \<^verbatim>\<open>display(mus)\<close>:
  \<^verbatim>\<open>
  def process(mu):
      load = []
      performance = []
      lambdas = [(i + 1)*0.001 for i in range(100)]
      for l in lambdas:
          output = str(subprocess.check_output(
              f"./schedsim --topo=0 --mu={mu} --lambda={l} --genType=3 --procType=0",
              shell=True))
          load.append(l/mu)
          performance.append(float(output.split("\\t")[-2]))
      performance = [float(i) for i in performance]
      return load, performance
  \<close>
  The embedding follows the function line by line. What Python's own operations do
  (binary64 arithmetic, \<^verbatim>\<open>str\<close> of a bytes object, \<^verbatim>\<open>str.split\<close>,
  \<^verbatim>\<open>float\<close> of a string, the formatting of a float in an f-string) is written out as
  HOL functions; the external simulator is a parameter. The service rate \<^verbatim>\<open>mu\<close> is a
  float, as in the one call \<^verbatim>\<open>display([0.1])\<close> of the source. \<^verbatim>\<open>display\<close> calls
  \<^verbatim>\<open>process\<close> for each service rate and hands the two lists to the plotting library;
  it computes nothing of its own and is not embedded.
\<close>

subsection \<open>Exceptions\<close>

text \<open>
  The exceptions the body of \<^verbatim>\<open>process\<close> can raise: \<^verbatim>\<open>check_output\<close> raises
  \<^verbatim>\<open>OSError\<close> when the process cannot be started and \<^verbatim>\<open>CalledProcessError\<close>
  (carrying the exit status) when it exits with a nonzero status; \<^verbatim>\<open>[-2]\<close> raises
  \<^verbatim>\<open>IndexError\<close>; \<^verbatim>\<open>float\<close> of a string raises \<^verbatim>\<open>ValueError\<close>; \<^verbatim>\<open>l/mu\<close>
  raises \<^verbatim>\<open>ZeroDivisionError\<close>. The function has no \<^verbatim>\<open>try\<close>.
\<close>

datatype error = OSError | CalledProcessError int | IndexError | ValueError | ZeroDivisionError

subsection \<open>Python floats: IEEE 754 binary64\<close>

text \<open>
  A finite float is \<open>Finite s m e\<close>: sign \<open>s\<close> (\<open>True\<close> is negative), significand
  \<open>m\<close> and exponent \<open>e\<close>, of value \<open>\<plusminus> m * 2 ^ e\<close>. The canonical form has
  \<open>e = -1074\<close> and \<open>0 \<le> m < 2 ^ 53\<close> (zeros, subnormals and the first binade), or
  \<open>-1074 < e \<le> 971\<close> and \<open>2 ^ 52 \<le> m < 2 ^ 53\<close>.
\<close>

datatype pyfloat = Finite bool int int | Infinity bool | NaN

fun bitlen :: "int \<Rightarrow> int" where
  "bitlen n = (if n \<le> 0 then 0 else 1 + bitlen (n div 2))"

declare bitlen.simps [simp del]

text \<open>\<open>rne_div a b\<close> is \<open>a / b\<close> rounded to the nearest integer, ties to even.\<close>

definition rne_div :: "int \<Rightarrow> int \<Rightarrow> int" where
  "rne_div a b =
     (let q = a div b; r = a mod b
      in if 2 * r < b \<or> (2 * r = b \<and> even q) then q else q + 1)"

text \<open>
  \<open>ilog2 a b\<close> is \<open>\<lfloor>log\<^sub>2 (a / b)\<rfloor>\<close> for positive \<open>a\<close> and \<open>b\<close>.
\<close>

definition ilog2 :: "int \<Rightarrow> int \<Rightarrow> int" where
  "ilog2 a b =
     (let d = bitlen a - bitlen b
      in if (if 0 \<le> d then b * 2 ^ nat d \<le> a else b \<le> a * 2 ^ nat (- d)) then d else d - 1)"

text \<open>
  \<open>round_double s a b\<close> is the binary64 value nearest to \<open>\<plusminus> a / b\<close> (\<open>0 \<le> a\<close>,
  \<open>0 < b\<close>), ties to even, with overflow to infinity and gradual underflow: the
  rounding of every correctly rounded operation below.
\<close>

definition round_double :: "bool \<Rightarrow> int \<Rightarrow> int \<Rightarrow> pyfloat" where
  "round_double s a b =
     (if a = 0 then Finite s 0 (- 1074)
      else
        let e = max (ilog2 a b - 52) (- 1074);
            m = (if 0 \<le> e then rne_div a (b * 2 ^ nat e) else rne_div (a * 2 ^ nat (- e)) b)
        in if m = 2 ^ 53 then (if 971 < e + 1 then Infinity s else Finite s (2 ^ 52) (e + 1))
           else if 971 < e then Infinity s
           else Finite s m e)"

text \<open>
  \<open>scaled s m k b\<close> rounds \<open>\<plusminus> m * 2 ^ k / b\<close>, for an exponent \<open>k\<close> of either sign.
\<close>

definition scaled :: "bool \<Rightarrow> int \<Rightarrow> int \<Rightarrow> int \<Rightarrow> pyfloat" where
  "scaled s m k b =
     (if 0 \<le> k then round_double s (m * 2 ^ nat k) b else round_double s m (b * 2 ^ nat (- k)))"

text \<open>The conversion of a Python int, exact up to \<open>2 ^ 53\<close> (here the ints are 1 to 100).\<close>

definition float_of_int :: "int \<Rightarrow> pyfloat" where
  "float_of_int n = round_double (n < 0) \<bar>n\<bar> 1"

text \<open>Float multiplication \<^verbatim>\<open>x * y\<close>.\<close>

fun fmul :: "pyfloat \<Rightarrow> pyfloat \<Rightarrow> pyfloat" where
  "fmul NaN y = NaN"
| "fmul x NaN = NaN"
| "fmul (Infinity s) (Infinity t) = Infinity (s \<noteq> t)"
| "fmul (Infinity s) (Finite t m e) = (if m = 0 then NaN else Infinity (s \<noteq> t))"
| "fmul (Finite s m e) (Infinity t) = (if m = 0 then NaN else Infinity (s \<noteq> t))"
| "fmul (Finite s m e) (Finite t n f) = scaled (s \<noteq> t) (m * n) (e + f) 1"

text \<open>
  Float division \<^verbatim>\<open>x / y\<close>: Python raises \<^verbatim>\<open>ZeroDivisionError\<close> on a zero divisor
  of either sign, and otherwise returns the IEEE quotient (an overflow gives an
  infinity, not an exception).
\<close>

fun fdiv :: "pyfloat \<Rightarrow> pyfloat \<Rightarrow> error + pyfloat" where
  "fdiv x (Finite t n f) =
     (if n = 0 then Inl ZeroDivisionError
      else case x of
        NaN \<Rightarrow> Inr NaN
      | Infinity s \<Rightarrow> Inr (Infinity (s \<noteq> t))
      | Finite s m e \<Rightarrow> Inr (scaled (s \<noteq> t) m (e - f) n))"
| "fdiv x NaN = Inr NaN"
| "fdiv x (Infinity t) =
     (case x of
        NaN \<Rightarrow> Inr NaN
      | Infinity s \<Rightarrow> Inr NaN
      | Finite s m e \<Rightarrow> Inr (Finite (s \<noteq> t) 0 (- 1074)))"

text \<open>
  The comparison \<^verbatim>\<open>x < y\<close> of two floats: false when either is a NaN, and the two
  zeros are equal.
\<close>

definition signed :: "bool \<Rightarrow> int \<Rightarrow> int" where
  "signed s m = (if s then - m else m)"

fun float_lt :: "pyfloat \<Rightarrow> pyfloat \<Rightarrow> bool" where
  "float_lt NaN y = False"
| "float_lt x NaN = False"
| "float_lt (Infinity s) (Infinity t) = (s \<and> \<not> t)"
| "float_lt (Infinity s) (Finite t n f) = s"
| "float_lt (Finite s m e) (Infinity t) = (\<not> t)"
| "float_lt (Finite s m e) (Finite t n f) =
     (signed s m * 2 ^ nat (e - min e f) < signed t n * 2 ^ nat (f - min e f))"

subsection \<open>\<^verbatim>\<open>str\<close> of a bytes object\<close>

text \<open>
  \<^verbatim>\<open>check_output\<close> returns the captured standard output as bytes, and \<^verbatim>\<open>str\<close> of a
  bytes object is its \<^verbatim>\<open>repr\<close>: the text \<^verbatim>\<open>b'...'\<close>, in which a backslash and the
  quote are escaped with a backslash, tab, newline and carriage return are written
  \<^verbatim>\<open>\t\<close>, \<^verbatim>\<open>\n\<close>, \<^verbatim>\<open>\r\<close> (two characters each), every other byte outside the
  printable ASCII range is written \<^verbatim>\<open>\xhh\<close>, and the quote is \<^verbatim>\<open>"\<close> when the bytes
  contain \<^verbatim>\<open>'\<close> and no \<^verbatim>\<open>"\<close>. Bytes and ASCII characters are both \<^typ>\<open>char\<close>.
\<close>

definition backslash :: char where
  "backslash = CHR 0x5C"

definition squote :: char where
  "squote = CHR 0x27"

definition dquote :: char where
  "dquote = CHR 0x22"

definition hexdigit :: "nat \<Rightarrow> char" where
  "hexdigit n = ''0123456789abcdef'' ! n"

definition escape_byte :: "char \<Rightarrow> char \<Rightarrow> string" where
  "escape_byte quote c =
     (if c = quote \<or> c = backslash then [backslash, c]
      else if c = CHR 0x09 then [backslash, CHR ''t'']
      else if c = CHR 0x0A then [backslash, CHR ''n'']
      else if c = CHR 0x0D then [backslash, CHR ''r'']
      else if (of_char c :: nat) < 32 \<or> 127 \<le> (of_char c :: nat)
        then [backslash, CHR ''x'', hexdigit (of_char c div 16), hexdigit (of_char c mod 16)]
      else [c])"

definition escape_bytes :: "char \<Rightarrow> string \<Rightarrow> string" where
  "escape_bytes quote bs = concat (map (escape_byte quote) bs)"

definition quote_of :: "string \<Rightarrow> char" where
  "quote_of bs = (if squote \<in> set bs \<and> dquote \<notin> set bs then dquote else squote)"

definition bytes_str :: "string \<Rightarrow> string" where
  "bytes_str bs = CHR ''b'' # quote_of bs # escape_bytes (quote_of bs) bs @ [quote_of bs]"

subsection \<open>\<^verbatim>\<open>str.split\<close> and the index \<^verbatim>\<open>[-2]\<close>\<close>

text \<open>
  \<^verbatim>\<open>s.split(sep)\<close> cuts \<open>s\<close> at the occurrences of \<open>sep\<close> found from left to
  right, without overlap; the result always has at least one field. (Python raises
  \<^verbatim>\<open>ValueError\<close> on an empty separator; the separator here is a constant of two
  characters.)
\<close>

fun split_on :: "string \<Rightarrow> string \<Rightarrow> string list" where
  "split_on sep [] = [[]]"
| "split_on sep (c # s) =
     (if sep \<noteq> [] \<and> prefix sep (c # s) then [] # split_on sep (drop (length sep) (c # s))
      else case split_on sep s of
        [] \<Rightarrow> [[c]]
      | f # fs \<Rightarrow> (c # f) # fs)"

text \<open>The separator of the source, \<^verbatim>\<open>"\\t"\<close>: a backslash and the letter t.\<close>

definition sep_bt :: string where
  "sep_bt = [backslash, CHR ''t'']"

text \<open>\<^verbatim>\<open>xs[-2]\<close>: the second-to-last element, \<^verbatim>\<open>IndexError\<close> on fewer than two.\<close>

definition index_m2 :: "'a list \<Rightarrow> error + 'a" where
  "index_m2 xs = (if length xs < 2 then Inl IndexError else Inr (xs ! (length xs - 2)))"

subsection \<open>\<^verbatim>\<open>float\<close> of a string\<close>

text \<open>
  \<^verbatim>\<open>float(s)\<close> on an ASCII string: underscores are checked and removed (each must
  stand between two digits), ASCII whitespace is stripped from both ends, and the rest
  must be, in full, a decimal number (optional sign, digits with an optional point, at
  least one digit, optional exponent) or, if no number starts there, an optionally
  signed \<^verbatim>\<open>inf\<close>, \<^verbatim>\<open>infinity\<close> or \<^verbatim>\<open>nan\<close> in any letter case. The value is the
  decimal correctly rounded; too large a value gives an infinity. Anything else raises
  \<^verbatim>\<open>ValueError\<close>.
\<close>

definition is_digit :: "char \<Rightarrow> bool" where
  "is_digit c = (c \<in> set ''0123456789'')"

definition is_space :: "char \<Rightarrow> bool" where
  "is_space c = (c \<in> {CHR 0x09, CHR 0x0A, CHR 0x0B, CHR 0x0C, CHR 0x0D, CHR 0x20})"

definition digit_val :: "char \<Rightarrow> int" where
  "digit_val c = int (of_char c) - 48"

definition digits_val :: "string \<Rightarrow> int" where
  "digits_val ds = foldl (\<lambda>a c. 10 * a + digit_val c) 0 ds"

fun rm_underscores :: "char \<Rightarrow> string \<Rightarrow> string option" where
  "rm_underscores prev [] = (if prev = CHR ''_'' then None else Some [])"
| "rm_underscores prev (c # cs) =
     (if c = CHR ''_'' then (if is_digit prev then rm_underscores c cs else None)
      else if prev = CHR ''_'' \<and> \<not> is_digit c then None
      else map_option ((#) c) (rm_underscores c cs))"

definition strip_space :: "string \<Rightarrow> string" where
  "strip_space s = rev (dropWhile is_space (rev (dropWhile is_space s)))"

fun parse_sign :: "string \<Rightarrow> bool \<times> string" where
  "parse_sign [] = (False, [])"
| "parse_sign (c # s) =
     (if c = CHR ''-'' then (True, s) else if c = CHR ''+'' then (False, s) else (False, c # s))"

text \<open>The exponent part: consumed only when at least one digit follows.\<close>

definition parse_exponent :: "string \<Rightarrow> int \<times> string" where
  "parse_exponent s =
     (case s of
        [] \<Rightarrow> (0, s)
      | c # r \<Rightarrow>
          if c = CHR ''e'' \<or> c = CHR ''E'' then
            (let (neg, r') = parse_sign r; ds = takeWhile is_digit r'
             in if ds = [] then (0, s)
                else (if neg then - digits_val ds else digits_val ds, dropWhile is_digit r'))
          else (0, s))"

text \<open>\<open>decimal s d p\<close> is the float nearest to \<open>\<plusminus> d * 10 ^ p\<close>.\<close>

definition decimal :: "bool \<Rightarrow> int \<Rightarrow> int \<Rightarrow> pyfloat" where
  "decimal s d p =
     (if 0 \<le> p then round_double s (d * 10 ^ nat p) 1 else round_double s d (10 ^ nat (- p)))"

text \<open>The decimal number at the start of \<open>s\<close> and the text after it, if there is one.\<close>

definition strtod :: "string \<Rightarrow> (pyfloat \<times> string) option" where
  "strtod s =
     (let (neg, s1) = parse_sign s;
          ip = takeWhile is_digit s1;
          s2 = dropWhile is_digit s1;
          (fp, s3) = (case s2 of
                        [] \<Rightarrow> ([], s2)
                      | c # r \<Rightarrow> if c = CHR ''.'' then (takeWhile is_digit r, dropWhile is_digit r)
                                 else ([], s2))
      in if ip = [] \<and> fp = [] then None
         else
           let (ex, s4) = parse_exponent s3
           in Some (decimal neg (digits_val (ip @ fp)) (ex - int (length fp)), s4))"

definition lower :: "char \<Rightarrow> char" where
  "lower c = (if 65 \<le> (of_char c :: nat) \<and> (of_char c :: nat) \<le> 90
              then char_of (of_char c + 32 :: nat) else c)"

definition parse_inf_or_nan :: "string \<Rightarrow> (pyfloat \<times> string) option" where
  "parse_inf_or_nan s =
     (let (neg, r) = parse_sign s; l = map lower r
      in if take 3 l = ''inf'' then
           (if take 5 (drop 3 l) = ''inity'' then Some (Infinity neg, drop 8 r)
            else Some (Infinity neg, drop 3 r))
         else if take 3 l = ''nan'' then Some (NaN, drop 3 r)
         else None)"

definition float_of_str :: "string \<Rightarrow> error + pyfloat" where
  "float_of_str s =
     (case rm_underscores (CHR 0x00) s of
        None \<Rightarrow> Inl ValueError
      | Some t \<Rightarrow>
          (let u = strip_space t
           in case (case strtod u of None \<Rightarrow> parse_inf_or_nan u | Some r \<Rightarrow> Some r) of
                None \<Rightarrow> Inl ValueError
              | Some (x, rest) \<Rightarrow> if rest = [] then Inr x else Inl ValueError))"

text \<open>
  The builtin \<^verbatim>\<open>float(x)\<close> on the two kinds of value the program passes to it: a
  string is parsed, a float is returned as it is.
\<close>

datatype pyval = Str string | Float pyfloat

fun float_builtin :: "pyval \<Rightarrow> error + pyfloat" where
  "float_builtin (Str s) = float_of_str s"
| "float_builtin (Float x) = Inr x"

subsection \<open>The text of a float in an f-string\<close>

text \<open>
  \<^verbatim>\<open>f"{x}"\<close> for a float is \<^verbatim>\<open>repr(x)\<close>: the shortest string of decimal digits that
  reads back as \<open>x\<close> (of two such strings of the same length, the one nearer to \<open>x\<close>),
  written with an exponent when the decimal point would stand more than 16 places to
  the right of the first digit or more than 3 to its left, and with \<^verbatim>\<open>.0\<close> added to
  a whole number.
\<close>

text \<open>\<open>le_pow10 k m e\<close> is \<open>10 ^ k \<le> m * 2 ^ e\<close>, for exponents of either sign.\<close>

definition le_pow10 :: "int \<Rightarrow> int \<Rightarrow> int \<Rightarrow> bool" where
  "le_pow10 k m e =
     ((if 0 \<le> k then 10 ^ nat k else 1) * (if e < 0 then 2 ^ nat (- e) else 1)
        \<le> m * (if 0 \<le> e then 2 ^ nat e else 1) * (if k < 0 then 10 ^ nat (- k) else 1))"

text \<open>
  \<open>dec_exp m e\<close> is the \<open>k\<close> with \<open>10 ^ (k - 1) \<le> m * 2 ^ e < 10 ^ k\<close>: the
  first such \<open>k\<close> from an underestimate upwards.
\<close>

definition dec_exp :: "int \<Rightarrow> int \<Rightarrow> int" where
  "dec_exp m e =
     (let k0 = (bitlen m + e - 1) * 30103 div 100000 - 1
      in case filter (\<lambda>k. \<not> le_pow10 k m e) [k0..k0 + 3] of
           [] \<Rightarrow> k0 + 4
         | k # ks \<Rightarrow> k)"

text \<open>
  The numbers of \<open>n\<close> digits next to \<open>m * 2 ^ e\<close>, below and above, in units of
  \<open>10 ^ p\<close>: \<open>dec_floor\<close> is the lower one, \<open>dec_nearer\<close> tells whether the lower
  one is the nearer (on a tie, whether it is even).
\<close>

definition dec_num :: "int \<Rightarrow> int \<Rightarrow> int \<Rightarrow> int" where
  "dec_num m e p = m * (if 0 \<le> e then 2 ^ nat e else 1) * (if p < 0 then 10 ^ nat (- p) else 1)"

definition dec_den :: "int \<Rightarrow> int \<Rightarrow> int" where
  "dec_den e p = (if e < 0 then 2 ^ nat (- e) else 1) * (if 0 \<le> p then 10 ^ nat p else 1)"

definition dec_floor :: "int \<Rightarrow> int \<Rightarrow> int \<Rightarrow> int" where
  "dec_floor m e p = dec_num m e p div dec_den e p"

definition dec_nearer :: "int \<Rightarrow> int \<Rightarrow> int \<Rightarrow> bool" where
  "dec_nearer m e p =
     (let lo = dec_floor m e p; a = 2 * dec_num m e p; b = (2 * lo + 1) * dec_den e p
      in a < b \<or> (a = b \<and> even lo))"

definition candidates :: "int \<Rightarrow> int \<Rightarrow> int \<Rightarrow> int list" where
  "candidates m e p =
     (let lo = dec_floor m e p;
          cs = filter (\<lambda>c. decimal False c p = Finite False m e) [lo, lo + 1]
      in if length cs = 2 then (if dec_nearer m e p then [lo] else [lo + 1]) else cs)"

text \<open>
  The first of the exponents \<open>ps\<close> at which some number of digits reads back as
  \<open>m * 2 ^ e\<close>, with that number. (17 digits always do.)
\<close>

fun shortest :: "int \<Rightarrow> int \<Rightarrow> int list \<Rightarrow> int \<times> int" where
  "shortest m e [] = (0, 0)"
| "shortest m e (p # ps) =
     (case candidates m e p of
        [] \<Rightarrow> shortest m e ps
      | c # cs \<Rightarrow> (c, p))"

fun dec_digits :: "int \<Rightarrow> string" where
  "dec_digits n =
     (if n < 10 then [char_of (48 + n)]
      else dec_digits (n div 10) @ [char_of (48 + n mod 10)])"

declare dec_digits.simps [simp del]

definition strip_zeros :: "string \<Rightarrow> string" where
  "strip_zeros ds = rev (dropWhile (\<lambda>c. c = CHR ''0'') (rev ds))"

definition exp_str :: "int \<Rightarrow> string" where
  "exp_str x =
     (if x < 0 then ''-'' else ''+'') @ (if \<bar>x\<bar> < 10 then ''0'' else []) @ dec_digits \<bar>x\<bar>"

text \<open>
  \<open>format_repr ds k\<close>: the digits \<open>ds\<close> with the decimal point \<open>k\<close> places after
  the start of \<open>ds\<close>.
\<close>

definition format_repr :: "string \<Rightarrow> int \<Rightarrow> string" where
  "format_repr ds k =
     (let n = int (length ds)
      in if k \<le> - 4 \<or> 16 < k then
           take 1 ds @ (if 1 < n then ''.'' @ drop 1 ds else []) @ ''e'' @ exp_str (k - 1)
         else if k \<le> 0 then ''0.'' @ replicate (nat (- k)) (CHR ''0'') @ ds
         else if k < n then take (nat k) ds @ ''.'' @ drop (nat k) ds
         else ds @ replicate (nat (k - n)) (CHR ''0'') @ ''.0'')"

definition float_repr :: "pyfloat \<Rightarrow> string" where
  "float_repr x =
     (case x of
        NaN \<Rightarrow> ''nan''
      | Infinity s \<Rightarrow> (if s then ''-inf'' else ''inf'')
      | Finite s m e \<Rightarrow>
          (if s then ''-'' else []) @
          (if m = 0 then ''0.0''
           else
             let k = dec_exp m e;
                 (c, p) = shortest m e (map (\<lambda>n. k - n) [1..17]);
                 ds = dec_digits c
             in format_repr (strip_zeros ds) (int (length ds) + p)))"

subsection \<open>The external simulator\<close>

text \<open>
  One run of the command line through the shell either cannot be started or ends with
  an exit status and the bytes it wrote to standard output. The simulator is outside
  the program, so it is a parameter: a function of the commands run before and the
  command run now. \<^verbatim>\<open>check_output\<close> records the command and raises on a failure to start
  and on a nonzero status.
\<close>

datatype proc_result = CannotStart | Exited int string

type_synonym simulator = "string list \<Rightarrow> string \<Rightarrow> proc_result"

definition check_output :: "simulator \<Rightarrow> string list \<Rightarrow> string \<Rightarrow> (error + string) \<times> string list" where
  "check_output sim calls cmd =
     ((case sim calls cmd of
         CannotStart \<Rightarrow> Inl OSError
       | Exited status out \<Rightarrow> if status = 0 then Inr out else Inl (CalledProcessError status)),
      calls @ [cmd])"

subsection \<open>\<^verbatim>\<open>process\<close>\<close>

text \<open>The literal \<^verbatim>\<open>0.001\<close> and the list \<^verbatim>\<open>[(i + 1)*0.001 for i in range(100)]\<close>.\<close>

definition lit_0_001 :: pyfloat where
  "lit_0_001 = decimal False 1 (- 3)"

definition lambdas :: "pyfloat list" where
  "lambdas = map (\<lambda>i. fmul (float_of_int (i + 1)) lit_0_001) [0..99]"

text \<open>The f-string of the command line.\<close>

definition command :: "pyfloat \<Rightarrow> pyfloat \<Rightarrow> string" where
  "command mu l =
     ''./schedsim --topo=0 --mu='' @ float_repr mu @ '' --lambda='' @ float_repr l @
     '' --genType=3 --procType=0''"

text \<open>\<^verbatim>\<open>float(output.split("\\t")[-2])\<close>, on the text \<^verbatim>\<open>output\<close>.\<close>

definition parse_metric :: "string \<Rightarrow> error + pyfloat" where
  "parse_metric output =
     (case index_m2 (split_on sep_bt output) of
        Inl e \<Rightarrow> Inl e
      | Inr field \<Rightarrow> float_builtin (Str field))"

text \<open>
  One pass through the body of the loop, for the arrival rate \<open>l\<close>: the two lists so
  far are \<open>load\<close> and \<open>performance\<close>, \<open>calls\<close> are the commands run so far. An
  exception ends the pass with the lists dropped.
\<close>

type_synonym curve = "pyfloat list \<times> pyfloat list"

definition sweep_step ::
  "simulator \<Rightarrow> pyfloat \<Rightarrow> curve \<Rightarrow> string list \<Rightarrow> pyfloat \<Rightarrow> (error + curve) \<times> string list" where
  "sweep_step sim mu acc calls l =
     (case check_output sim calls (command mu l) of
        (Inl e, calls') \<Rightarrow> (Inl e, calls')
      | (Inr out, calls') \<Rightarrow>
          (let output = bytes_str out
           in case fdiv l mu of
                Inl e \<Rightarrow> (Inl e, calls')
              | Inr q \<Rightarrow>
                  (case parse_metric output of
                     Inl e \<Rightarrow> (Inl e, calls')
                   | Inr p \<Rightarrow> (Inr (fst acc @ [q], snd acc @ [p]), calls'))))"

text \<open>The loop \<^verbatim>\<open>for l in lambdas\<close>: the first exception ends it.\<close>

fun sweep ::
  "simulator \<Rightarrow> pyfloat \<Rightarrow> curve \<Rightarrow> string list \<Rightarrow> pyfloat list \<Rightarrow> (error + curve) \<times> string list" where
  "sweep sim mu acc calls [] = (Inr acc, calls)"
| "sweep sim mu acc calls (l # ls) =
     (case sweep_step sim mu acc calls l of
        (Inl e, calls') \<Rightarrow> (Inl e, calls')
      | (Inr acc', calls') \<Rightarrow> sweep sim mu acc' calls' ls)"

text \<open>A list comprehension \<^verbatim>\<open>[f(i) for i in xs]\<close> with an \<open>f\<close> that may raise.\<close>

fun map_result :: "('a \<Rightarrow> error + 'b) \<Rightarrow> 'a list \<Rightarrow> error + 'b list" where
  "map_result f [] = Inr []"
| "map_result f (x # xs) =
     (case f x of
        Inl e \<Rightarrow> Inl e
      | Inr y \<Rightarrow> (case map_result f xs of Inl e \<Rightarrow> Inl e | Inr ys \<Rightarrow> Inr (y # ys)))"

text \<open>
  \<^verbatim>\<open>process(mu)\<close>, started after the commands \<open>calls\<close>: the pair
  \<^verbatim>\<open>(load, performance)\<close> or the exception, and the commands run.
\<close>

definition process :: "simulator \<Rightarrow> string list \<Rightarrow> pyfloat \<Rightarrow> (error + curve) \<times> string list" where
  "process sim calls mu =
     (case sweep sim mu ([], []) calls lambdas of
        (Inl e, calls') \<Rightarrow> (Inl e, calls')
      | (Inr (load, performance), calls') \<Rightarrow>
          (case map_result float_builtin (map Float performance) of
             Inl e \<Rightarrow> (Inl e, calls')
           | Inr performance' \<Rightarrow> (Inr (load, performance'), calls')))"

subsection \<open>Auxiliary notions and sample simulators\<close>

text \<open>A zero of either sign, and the quotient where \<^verbatim>\<open>l/mu\<close> does not raise.\<close>

definition is_zero :: "pyfloat \<Rightarrow> bool" where
  "is_zero x = (case x of Finite s m e \<Rightarrow> m = 0 | Infinity s \<Rightarrow> False | NaN \<Rightarrow> False)"

definition fquot :: "pyfloat \<Rightarrow> pyfloat \<Rightarrow> pyfloat" where
  "fquot l mu = (case fdiv l mu of Inl e \<Rightarrow> NaN | Inr q \<Rightarrow> q)"

text \<open>
  The real value of a finite float, the floats in canonical form, and the finite floats.
\<close>

definition valof :: "pyfloat \<Rightarrow> real" where
  "valof x =
     (case x of
        Finite s m e \<Rightarrow> (if s then - 1 else 1) * real_of_int m * 2 powi e
      | Infinity s \<Rightarrow> 0
      | NaN \<Rightarrow> 0)"

definition valid :: "pyfloat \<Rightarrow> bool" where
  "valid x =
     (case x of
        Finite s m e \<Rightarrow>
          (e = - 1074 \<and> 0 \<le> m \<and> m < 2 ^ 53) \<or> (- 1074 < e \<and> e \<le> 971 \<and> 2 ^ 52 \<le> m \<and> m < 2 ^ 53)
      | Infinity s \<Rightarrow> True
      | NaN \<Rightarrow> True)"

definition is_finite :: "pyfloat \<Rightarrow> bool" where
  "is_finite x = (case x of Finite s m e \<Rightarrow> True | Infinity s \<Rightarrow> False | NaN \<Rightarrow> False)"

text \<open>
  \<open>gap_ok x y\<close>, for positive finite floats with exponents below \<open>-50\<close>: \<open>y\<close>
  exceeds \<open>x\<close> by more than \<open>2 ^ -50\<close> and by more than \<open>y * 2 ^ -52\<close>, in integer
  arithmetic at the smaller exponent.
\<close>

definition gap_ok :: "pyfloat \<Rightarrow> pyfloat \<Rightarrow> bool" where
  "gap_ok x y =
     (case x of
        Finite s m e \<Rightarrow>
          (case y of
             Finite t n f \<Rightarrow>
               (let k = min e f; a = m * 2 ^ nat (e - k); b = n * 2 ^ nat (f - k)
                in \<not> s \<and> \<not> t \<and> 0 < m \<and> 0 < n \<and> k < - 50 \<and>
                   b < (b - a) * 2 ^ 52 \<and> 2 ^ nat (- 50 - k) < b - a)
           | Infinity t \<Rightarrow> False
           | NaN \<Rightarrow> False)
      | Infinity s \<Rightarrow> False
      | NaN \<Rightarrow> False)"

text \<open>
  \<open>near_fraction d k x\<close>, for a positive finite float with a negative exponent: \<open>x\<close>
  differs from \<open>k / d\<close> by at most \<open>k / d * 2 ^ -51\<close>, in integer arithmetic.
\<close>

definition near_fraction :: "int \<Rightarrow> int \<Rightarrow> pyfloat \<Rightarrow> bool" where
  "near_fraction d k x =
     (case x of
        Finite s m e \<Rightarrow>
          \<not> s \<and> e < 0 \<and> 0 < k \<and> 0 < d \<and> \<bar>m * d - k * 2 ^ nat (- e)\<bar> * 2 ^ 51 \<le> k * 2 ^ nat (- e)
      | Infinity s \<Rightarrow> False
      | NaN \<Rightarrow> False)"

text \<open>The loads of a sweep that ends without an exception.\<close>

definition loads :: "pyfloat \<Rightarrow> pyfloat list" where
  "loads mu = map (\<lambda>l. fquot l mu) lambdas"

text \<open>The results of running the commands \<open>cmds\<close> in order after \<open>calls\<close>.\<close>

fun replay :: "simulator \<Rightarrow> string list \<Rightarrow> string list \<Rightarrow> proc_result list" where
  "replay sim calls [] = []"
| "replay sim calls (c # cs) = sim calls c # replay sim (calls @ [c]) cs"

definition succeeded :: "proc_result \<Rightarrow> bool" where
  "succeeded r = (case r of CannotStart \<Rightarrow> False | Exited status out \<Rightarrow> status = 0)"

text \<open>The fields of a raw output between tab characters.\<close>

definition tab :: char where
  "tab = CHR 0x09"

definition tab_fields :: "string \<Rightarrow> string list" where
  "tab_fields raw = split_on [tab] raw"

text \<open>\<open>no_bt raw\<close>: no backslash in \<open>raw\<close> stands right before a letter t.\<close>

fun no_bt :: "string \<Rightarrow> bool" where
  "no_bt [] = True"
| "no_bt [c] = True"
| "no_bt (c # d # s) = (\<not> (c = backslash \<and> d = CHR ''t'') \<and> no_bt (d # s))"

text \<open>The four control characters, other than the tab, that \<^verbatim>\<open>float\<close> strips as whitespace.\<close>

definition is_break :: "char \<Rightarrow> bool" where
  "is_break c = (c \<in> {CHR 0x0A, CHR 0x0B, CHR 0x0C, CHR 0x0D})"

text \<open>The characters that can stand in a string that \<^verbatim>\<open>float\<close> accepts.\<close>

definition accepted :: "char \<Rightarrow> bool" where
  "accepted c =
     (is_digit c \<or> is_space c \<or> c \<in> set ''+-.eE_'' \<or> lower c \<in> set ''infinityna'')"

text \<open>
  A simulator that writes \<^verbatim>\<open>a<TAB>1.5<TAB>z\<close> and exits with status 0, except that
  its run number \<open>n\<close> (counted from 0) has the result \<open>r\<close>.
\<close>

definition good_output :: string where
  "good_output = [CHR ''a'', tab, CHR ''1'', CHR ''.'', CHR ''5'', tab, CHR ''z'']"

definition sim_except :: "nat \<Rightarrow> proc_result \<Rightarrow> simulator" where
  "sim_except n r calls cmd = (if length calls = n then r else Exited 0 good_output)"

text \<open>
  Sample raw outputs: \<^verbatim>\<open>a<TAB>b<TAB>c<TAB>0.25<TAB>e\<close>; \<^verbatim>\<open>1.5<TAB>z\<close>, of two
  fields; \<^verbatim>\<open>a<TAB><LF>1.5<TAB>z\<close>, with a line feed in the second-to-last field;
  \<^verbatim>\<open>a<TAB>x\t1.5<TAB>z\<close> and \<^verbatim>\<open>x\t1.5<TAB>y\<close>, in which \<^verbatim>\<open>\t\<close> is a backslash and
  a letter t; \<^verbatim>\<open>x\t1.5\<close>, the same without a tab; a raw output without a tab; and one
  whose second-to-last field is a word.
\<close>

definition raw_five :: string where
  "raw_five = [CHR ''a'', tab, CHR ''b'', tab, CHR ''c'', tab, CHR ''0'', CHR ''.'', CHR ''2'', CHR ''5'',
               tab, CHR ''e'']"

definition raw_two :: string where
  "raw_two = [CHR ''1'', CHR ''.'', CHR ''5'', tab, CHR ''z'']"

definition raw_break :: string where
  "raw_break = [CHR ''a'', tab, CHR 0x0A, CHR ''1'', CHR ''.'', CHR ''5'', tab, CHR ''z'']"

definition raw_bt_three :: string where
  "raw_bt_three = [CHR ''a'', tab, CHR ''x'', backslash, CHR ''t'', CHR ''1'', CHR ''.'', CHR ''5'', tab, CHR ''z'']"

definition raw_bt_two :: string where
  "raw_bt_two = [CHR ''x'', backslash, CHR ''t'', CHR ''1'', CHR ''.'', CHR ''5'', tab, CHR ''y'']"

definition raw_bt_word :: string where
  "raw_bt_word = [CHR ''x'', backslash, CHR ''t'', CHR ''1'', CHR ''.'', CHR ''5'']"

definition raw_word :: string where
  "raw_word = ''no metric here''"

definition raw_text :: string where
  "raw_text = [CHR ''x'', tab, CHR ''y'', tab, CHR ''a'', CHR ''b'', CHR ''c'', tab, CHR ''z'']"

text \<open>The service rate of the call \<^verbatim>\<open>display([0.1])\<close>, and the float \<^verbatim>\<open>1.5\<close>.\<close>

definition mu_0_1 :: pyfloat where
  "mu_0_1 = decimal False 1 (- 1)"

text \<open>The smallest positive float, \<^verbatim>\<open>5e-324\<close>.\<close>

definition mu_tiny :: pyfloat where
  "mu_tiny = decimal False 5 (- 324)"

definition f_1_5 :: pyfloat where
  "f_1_5 = decimal False 15 (- 1)"

section \<open>Properties\<close>

subsection \<open>The loop\<close>

lemma map_result_float: "map_result float_builtin (map Float xs) = Inr xs"
  by (induction xs) simp_all

lemma process_sweep: "process sim calls mu = sweep sim mu ([], []) calls lambdas"
  unfolding process_def by (auto split: prod.splits sum.splits simp: map_result_float)

lemma sweep_step_calls: "snd (sweep_step sim mu acc calls l) = calls @ [command mu l]"
  by (simp add: sweep_step_def check_output_def split: proc_result.splits sum.splits)

lemma sweep_step_Inr:
  "sweep_step sim mu acc calls l = (Inr acc', c) \<longleftrightarrow>
     (\<exists>out q p. sim calls (command mu l) = Exited 0 out \<and> fdiv l mu = Inr q \<and>
        parse_metric (bytes_str out) = Inr p \<and>
        acc' = (fst acc @ [q], snd acc @ [p]) \<and> c = calls @ [command mu l])"
  by (auto simp: sweep_step_def check_output_def split: proc_result.splits sum.splits)

lemma sweep_append:
  "sweep sim mu acc calls (xs @ ys) =
     (case sweep sim mu acc calls xs of
        (Inl e, c) \<Rightarrow> (Inl e, c)
      | (Inr acc', c) \<Rightarrow> sweep sim mu acc' c ys)"
  by (induction xs arbitrary: acc calls) (auto split: prod.splits sum.splits)

text \<open>
  A loop that ends without an exception has run one command for each arrival rate, in
  order, and has added to the two lists, for each arrival rate, the quotient by
  \<open>mu\<close> and the metric parsed from the output of that command.
\<close>

lemma sweep_Inr:
  "sweep sim mu acc calls ls = (Inr acc', c) \<Longrightarrow>
     c = calls @ map (command mu) ls \<and>
     (\<exists>qs ps. acc' = (fst acc @ qs, snd acc @ ps) \<and> length qs = length ls \<and> length ps = length ls \<and>
        (\<forall>i<length ls. fdiv (ls ! i) mu = Inr (qs ! i) \<and>
           (\<exists>out. sim (calls @ map (command mu) (take i ls)) (command mu (ls ! i)) = Exited 0 out \<and>
                  parse_metric (bytes_str out) = Inr (ps ! i))))"
proof (induction ls arbitrary: acc calls)
  case Nil
  then show ?case by simp
next
  case (Cons l ls)
  from Cons.prems obtain acc1 c1 where
    s: "sweep_step sim mu acc calls l = (Inr acc1, c1)" and r: "sweep sim mu acc1 c1 ls = (Inr acc', c)"
    by (auto split: prod.splits sum.splits)
  from s obtain out q p where o: "sim calls (command mu l) = Exited 0 out" "fdiv l mu = Inr q"
    "parse_metric (bytes_str out) = Inr p" "acc1 = (fst acc @ [q], snd acc @ [p])" "c1 = calls @ [command mu l]"
    unfolding sweep_step_Inr by blast
  from Cons.IH [OF r] obtain qs ps where ih: "c = c1 @ map (command mu) ls"
    "acc' = (fst acc1 @ qs, snd acc1 @ ps)" "length qs = length ls" "length ps = length ls"
    "\<forall>i<length ls. fdiv (ls ! i) mu = Inr (qs ! i) \<and>
           (\<exists>out. sim (c1 @ map (command mu) (take i ls)) (command mu (ls ! i)) = Exited 0 out \<and>
                  parse_metric (bytes_str out) = Inr (ps ! i))"
    by blast
  have a: "acc' = (fst acc @ (q # qs), snd acc @ (p # ps))" using ih(2) o(4) by simp
  have b: "\<forall>i<length (l # ls). fdiv ((l # ls) ! i) mu = Inr ((q # qs) ! i) \<and>
           (\<exists>out. sim (calls @ map (command mu) (take i (l # ls))) (command mu ((l # ls) ! i)) = Exited 0 out \<and>
                  parse_metric (bytes_str out) = Inr ((p # ps) ! i))"
  proof (intro allI impI)
    fix i assume "i < length (l # ls)"
    then show "fdiv ((l # ls) ! i) mu = Inr ((q # qs) ! i) \<and>
           (\<exists>out. sim (calls @ map (command mu) (take i (l # ls))) (command mu ((l # ls) ! i)) = Exited 0 out \<and>
                  parse_metric (bytes_str out) = Inr ((p # ps) ! i))"
      using o ih(5) by (cases i) auto
  qed
  show ?case
    using a b ih(1,3,4) o(5) by (intro conjI exI [of _ "q # qs"] exI [of _ "p # ps"]) auto
qed

subsection \<open>Sweeps that succeed, sweeps that fail\<close>

lemma fdiv_quotient: "\<not> is_zero mu \<Longrightarrow> fdiv l mu = Inr (fquot l mu)"
  by (cases mu; cases l) (auto simp: is_zero_def fquot_def)

lemma fdiv_zero: "is_zero mu \<Longrightarrow> fdiv l mu = Inl ZeroDivisionError"
  by (cases mu) (auto simp: is_zero_def)

lemma sweep_step_ok:
  "sim calls (command mu l) = Exited 0 out \<Longrightarrow> fdiv l mu = Inr q \<Longrightarrow>
   parse_metric (bytes_str out) = Inr p \<Longrightarrow>
   sweep_step sim mu acc calls l = (Inr (fst acc @ [q], snd acc @ [p]), calls @ [command mu l])"
  by (simp add: sweep_step_def check_output_def)

lemma sweep_step_raises:
  "sim calls (command mu l) = CannotStart \<Longrightarrow>
     sweep_step sim mu acc calls l = (Inl OSError, calls @ [command mu l])"
  "sim calls (command mu l) = Exited status out \<Longrightarrow> status \<noteq> 0 \<Longrightarrow>
     sweep_step sim mu acc calls l = (Inl (CalledProcessError status), calls @ [command mu l])"
  "sim calls (command mu l) = Exited 0 out \<Longrightarrow> is_zero mu \<Longrightarrow>
     sweep_step sim mu acc calls l = (Inl ZeroDivisionError, calls @ [command mu l])"
  "sim calls (command mu l) = Exited 0 out \<Longrightarrow> \<not> is_zero mu \<Longrightarrow>
     parse_metric (bytes_str out) = Inl e \<Longrightarrow>
     sweep_step sim mu acc calls l = (Inl e, calls @ [command mu l])"
  by (simp_all add: sweep_step_def check_output_def fdiv_zero fdiv_quotient)

lemma sweep_ok:
  "length qs = length ls \<Longrightarrow> length ps = length ls \<Longrightarrow>
   (\<And>i. i < length ls \<Longrightarrow> fdiv (ls ! i) mu = Inr (qs ! i) \<and>
       (\<exists>out. sim (calls @ map (command mu) (take i ls)) (command mu (ls ! i)) = Exited 0 out \<and>
              parse_metric (bytes_str out) = Inr (ps ! i))) \<Longrightarrow>
   sweep sim mu acc calls ls = (Inr (fst acc @ qs, snd acc @ ps), calls @ map (command mu) ls)"
proof (induction ls arbitrary: acc calls qs ps)
  case Nil
  then show ?case by simp
next
  case (Cons l ls)
  from Cons.prems(1,2) obtain q qs' p ps' where qp: "qs = q # qs'" "ps = p # ps'"
    "length qs' = length ls" "length ps' = length ls"
    by (cases qs; cases ps) auto
  from Cons.prems(3) [of 0] obtain out where o: "fdiv l mu = Inr q"
    "sim calls (command mu l) = Exited 0 out" "parse_metric (bytes_str out) = Inr p"
    using qp by auto
  have st: "sweep_step sim mu acc calls l = (Inr (fst acc @ [q], snd acc @ [p]), calls @ [command mu l])"
    using o by (simp add: sweep_step_ok)
  have rest: "sweep sim mu (fst acc @ [q], snd acc @ [p]) (calls @ [command mu l]) ls =
      (Inr (fst (fst acc @ [q], snd acc @ [p]) @ qs', snd (fst acc @ [q], snd acc @ [p]) @ ps'),
       (calls @ [command mu l]) @ map (command mu) ls)"
  proof (rule Cons.IH [OF qp(3) qp(4)])
    fix i assume i: "i < length ls"
    from Cons.prems(3) [of "Suc i"] i qp
    show "fdiv (ls ! i) mu = Inr (qs' ! i) \<and>
       (\<exists>out. sim ((calls @ [command mu l]) @ map (command mu) (take i ls)) (command mu (ls ! i)) = Exited 0 out \<and>
              parse_metric (bytes_str out) = Inr (ps' ! i))"
      by simp
  qed
  show ?case using st rest qp by simp
qed

lemma sweep_fail_at:
  assumes k: "k < length ls"
    and pre: "sweep sim mu acc calls (take k ls) = (Inr acc1, c1)"
    and st: "sweep_step sim mu acc1 c1 (ls ! k) = (Inl e, c2)"
  shows "sweep sim mu acc calls ls = (Inl e, calls @ map (command mu) (take (Suc k) ls))"
proof -
  have ls: "ls = take k ls @ (ls ! k) # drop (Suc k) ls"
    using k by (simp add: id_take_nth_drop)
  have c1: "c1 = calls @ map (command mu) (take k ls)"
    using sweep_Inr [OF pre] by simp
  have c2: "c2 = c1 @ [command mu (ls ! k)]"
    using sweep_step_calls [of sim mu acc1 c1 "ls ! k"] st by simp
  have "sweep sim mu acc calls (take k ls @ (ls ! k) # drop (Suc k) ls) = (Inl e, c2)"
    by (simp add: sweep_append pre st)
  then have "sweep sim mu acc calls ls = (Inl e, c2)"
    using ls by simp
  then show ?thesis
    using c1 c2 k by (simp add: take_Suc_conv_app_nth)
qed

lemma sweep_calls:
  "\<exists>n. n \<le> length ls \<and> (ls \<noteq> [] \<longrightarrow> 1 \<le> n) \<and>
       snd (sweep sim mu acc calls ls) = calls @ map (command mu) (take n ls)"
proof (induction ls arbitrary: acc calls)
  case Nil
  then show ?case by simp
next
  case (Cons l ls)
  show ?case
  proof (cases "sweep_step sim mu acc calls l")
    case (Pair r c)
    have c: "c = calls @ [command mu l]"
      using sweep_step_calls [of sim mu acc calls l] Pair by simp
    show ?thesis
    proof (cases r)
      case (Inl e)
      then have "snd (sweep sim mu acc calls (l # ls)) = calls @ map (command mu) (take 1 (l # ls))"
        using Pair c by simp
      then show ?thesis by (intro exI [of _ 1]) simp
    next
      case (Inr acc')
      from Cons.IH [of acc' c] obtain n where n: "n \<le> length ls"
        "snd (sweep sim mu acc' c ls) = c @ map (command mu) (take n ls)" by blast
      then have "snd (sweep sim mu acc calls (l # ls)) = calls @ map (command mu) (take (Suc n) (l # ls))"
        using Pair Inr c by simp
      then show ?thesis using n(1) by (intro exI [of _ "Suc n"]) simp
    qed
  qed
qed

lemma length_lambdas: "length lambdas = 100"
  by (simp add: lambdas_def)

lemma good_metric: "parse_metric (bytes_str good_output) = Inr f_1_5"
  by code_simp

lemma mu_0_1_nonzero: "\<not> is_zero mu_0_1"
  by code_simp

subsection \<open>The sample simulator\<close>

lemma sim_except_other: "length calls \<noteq> n \<Longrightarrow> sim_except n r calls cmd = Exited 0 good_output"
  by (simp add: sim_except_def)

lemma sim_except_at: "length calls = n \<Longrightarrow> sim_except n r calls cmd = r"
  by (simp add: sim_except_def)

text \<open>The sample simulator lets the first n passes through.\<close>

lemma sweep_sim_except:
  assumes "k \<le> n" "k \<le> 100" "\<not> is_zero mu"
  shows "sweep (sim_except n r) mu ([], []) [] (take k lambdas) =
     (Inr (map (\<lambda>l. fquot l mu) (take k lambdas), replicate k f_1_5),
      map (command mu) (take k lambdas))"
proof -
  have A: "length (map (\<lambda>l. fquot l mu) (take k lambdas)) = length (take k lambdas)" by simp
  have B: "length (replicate k f_1_5) = length (take k lambdas)"
    using assms(2) by (simp add: length_lambdas)
  have C: "fdiv (take k lambdas ! i) mu = Inr (map (\<lambda>l. fquot l mu) (take k lambdas) ! i) \<and>
       (\<exists>out. sim_except n r ([] @ map (command mu) (take i (take k lambdas))) (command mu (take k lambdas ! i)) = Exited 0 out \<and>
              parse_metric (bytes_str out) = Inr (replicate k f_1_5 ! i))"
    if i: "i < length (take k lambdas)" for i
  proof -
    from i have ik: "i < k" by simp
    have "sim_except n r ([] @ map (command mu) (take i (take k lambdas))) (command mu (take k lambdas ! i))
        = Exited 0 good_output"
      using ik assms(1,2) by (intro sim_except_other) (simp add: length_lambdas)
    then show ?thesis
      using i ik assms(3) by (simp add: fdiv_quotient good_metric)
  qed
  show ?thesis
    using sweep_ok [OF A B C, of "([], [])"] by simp
qed

subsection \<open>Failures of the simulator\<close>

text \<open>
  C3. At every step \<open>k\<close> of the sweep that the loop reaches: when the simulator
  cannot be started, \<^verbatim>\<open>process\<close> raises \<^verbatim>\<open>OSError\<close>; when it exits with a nonzero
  status, \<^verbatim>\<open>process\<close> raises \<^verbatim>\<open>CalledProcessError\<close> with that status. These two
  exceptions of \<^verbatim>\<open>check_output\<close> are what the spec calls \<^verbatim>\<open>InvocationError\<close>;
  nothing catches or replaces them.
\<close>

theorem invocation_failure_raises:
  assumes "k < 100"
    and "sweep sim mu ([], []) calls (take k lambdas) = (Inr acc, c)"
    and "sim c (command mu (lambdas ! k)) = r"
  shows "(r = CannotStart \<longrightarrow> fst (process sim calls mu) = Inl OSError) \<and>
         (\<forall>status out. r = Exited status out \<and> status \<noteq> 0 \<longrightarrow>
            fst (process sim calls mu) = Inl (CalledProcessError status))"
proof -
  have k: "k < length lambdas" using assms(1) by (simp add: length_lambdas)
  have a: "fst (process sim calls mu) = Inl e"
    if "sweep_step sim mu acc c (lambdas ! k) = (Inl e, c')" for e c'
    using sweep_fail_at [OF k assms(2) that] by (simp add: process_sweep)
  show ?thesis
  proof (intro conjI impI allI)
    assume "r = CannotStart"
    then have "sweep_step sim mu acc c (lambdas ! k) = (Inl OSError, c @ [command mu (lambdas ! k)])"
      using assms(3) by (simp add: sweep_step_def check_output_def)
    then show "fst (process sim calls mu) = Inl OSError" by (rule a)
  next
    fix status out assume "r = Exited status out \<and> status \<noteq> 0"
    then have "sweep_step sim mu acc c (lambdas ! k) =
        (Inl (CalledProcessError status), c @ [command mu (lambdas ! k)])"
      using assms(3) by (simp add: sweep_step_def check_output_def)
    then show "fst (process sim calls mu) = Inl (CalledProcessError status)" by (rule a)
  qed
qed

theorem invocation_failure_raises_witness:
  "(2::nat) < 100 \<and>
   sweep (sim_except 2 (Exited 3 [])) mu_0_1 ([], []) [] (take 2 lambdas) =
     (Inr (map (\<lambda>l. fquot l mu_0_1) (take 2 lambdas), replicate 2 f_1_5),
      map (command mu_0_1) (take 2 lambdas)) \<and>
   sim_except 2 (Exited 3 []) (map (command mu_0_1) (take 2 lambdas)) (command mu_0_1 (lambdas ! 2)) = Exited 3 [] \<and>
   fst (process (sim_except 2 (Exited 3 [])) [] mu_0_1) = Inl (CalledProcessError 3)"
proof -
  have h1: "(2::nat) < 100" by simp
  have h2: "sweep (sim_except 2 (Exited 3 [])) mu_0_1 ([], []) [] (take 2 lambdas) =
     (Inr (map (\<lambda>l. fquot l mu_0_1) (take 2 lambdas), replicate 2 f_1_5),
      map (command mu_0_1) (take 2 lambdas))"
    by (rule sweep_sim_except) (simp_all add: mu_0_1_nonzero)
  have h3: "sim_except 2 (Exited 3 []) (map (command mu_0_1) (take 2 lambdas)) (command mu_0_1 (lambdas ! 2)) = Exited 3 []"
    by (rule sim_except_at) (simp add: length_lambdas)
  show ?thesis
    using invocation_failure_raises [OF h1 h2 h3] h2 h3 by simp
qed

text \<open>
  C4. When the pass for the arrival rate number \<open>k\<close> raises an exception,
  \<^verbatim>\<open>process\<close> raises that exception: so it does when the simulator cannot be
  started, when it exits with a nonzero status, and when its output does not parse.
  \<^verbatim>\<open>process\<close> then returns no lists, the samples of the \<open>k\<close> passes before are gone
  with the local lists, and the commands run are exactly the first \<open>k + 1\<close>: nothing
  runs after the failure.
\<close>

theorem failure_aborts_sweep:
  assumes "k < 100"
    and "sweep sim mu ([], []) calls (take k lambdas) = (Inr acc, c)"
    and "sim c (command mu (lambdas ! k)) = r"
  shows "(\<forall>e c'. sweep_step sim mu acc c (lambdas ! k) = (Inl e, c') \<longrightarrow>
            process sim calls mu = (Inl e, calls @ map (command mu) (take (Suc k) lambdas))) \<and>
         (r = CannotStart \<longrightarrow>
            process sim calls mu = (Inl OSError, calls @ map (command mu) (take (Suc k) lambdas))) \<and>
         (\<forall>status out. r = Exited status out \<and> status \<noteq> 0 \<longrightarrow>
            process sim calls mu =
              (Inl (CalledProcessError status), calls @ map (command mu) (take (Suc k) lambdas))) \<and>
         (\<forall>out e. r = Exited 0 out \<and> \<not> is_zero mu \<and> parse_metric (bytes_str out) = Inl e \<longrightarrow>
            process sim calls mu = (Inl e, calls @ map (command mu) (take (Suc k) lambdas))) \<and>
         length (calls @ map (command mu) (take (Suc k) lambdas)) = length calls + Suc k"
proof -
  have k: "k < length lambdas" using assms(1) by (simp add: length_lambdas)
  have a: "process sim calls mu = (Inl e, calls @ map (command mu) (take (Suc k) lambdas))"
    if "sweep_step sim mu acc c (lambdas ! k) = (Inl e, c')" for e c'
    using sweep_fail_at [OF k assms(2) that] by (simp add: process_sweep)
  show ?thesis
  proof (intro conjI allI impI)
    show "process sim calls mu = (Inl e, calls @ map (command mu) (take (Suc k) lambdas))"
      if "sweep_step sim mu acc c (lambdas ! k) = (Inl e, c')" for e c'
      using that by (rule a)
    show "process sim calls mu = (Inl OSError, calls @ map (command mu) (take (Suc k) lambdas))"
      if "r = CannotStart"
    proof -
      have "sim c (command mu (lambdas ! k)) = CannotStart" using that assms(3) by simp
      from a [OF sweep_step_raises(1) [where sim = sim and calls = c and mu = mu and l = "lambdas ! k" and acc = acc, OF this]] show ?thesis .
    qed
    show "process sim calls mu =
        (Inl (CalledProcessError status), calls @ map (command mu) (take (Suc k) lambdas))"
      if "r = Exited status out \<and> status \<noteq> 0" for status out
    proof -
      have "sim c (command mu (lambdas ! k)) = Exited status out" "status \<noteq> 0"
        using that assms(3) by simp_all
      from a [OF sweep_step_raises(2) [where sim = sim and calls = c and mu = mu and l = "lambdas ! k" and acc = acc, OF this]] show ?thesis .
    qed
    show "process sim calls mu = (Inl e, calls @ map (command mu) (take (Suc k) lambdas))"
      if "r = Exited 0 out \<and> \<not> is_zero mu \<and> parse_metric (bytes_str out) = Inl e" for out e
    proof -
      have "sim c (command mu (lambdas ! k)) = Exited 0 out" "\<not> is_zero mu"
        "parse_metric (bytes_str out) = Inl e"
        using that assms(3) by simp_all
      from a [OF sweep_step_raises(4) [where sim = sim and calls = c and mu = mu and l = "lambdas ! k" and acc = acc, OF this]] show ?thesis .
    qed
    show "length (calls @ map (command mu) (take (Suc k) lambdas)) = length calls + Suc k"
      using k by simp
  qed
qed

theorem failure_aborts_sweep_witness:
  "(36::nat) < 100 \<and>
   sweep (sim_except 36 (Exited 1 [])) mu_0_1 ([], []) [] (take 36 lambdas) =
     (Inr (map (\<lambda>l. fquot l mu_0_1) (take 36 lambdas), replicate 36 f_1_5),
      map (command mu_0_1) (take 36 lambdas)) \<and>
   sim_except 36 (Exited 1 []) (map (command mu_0_1) (take 36 lambdas)) (command mu_0_1 (lambdas ! 36)) =
     Exited 1 [] \<and>
   process (sim_except 36 (Exited 1 [])) [] mu_0_1 =
     (Inl (CalledProcessError 1), map (command mu_0_1) (take 37 lambdas)) \<and>
   length (map (command mu_0_1) (take 37 lambdas)) = 37"
proof -
  have h1: "(36::nat) < 100" by simp
  have h2: "sweep (sim_except 36 (Exited 1 [])) mu_0_1 ([], []) [] (take 36 lambdas) =
     (Inr (map (\<lambda>l. fquot l mu_0_1) (take 36 lambdas), replicate 36 f_1_5),
      map (command mu_0_1) (take 36 lambdas))"
    by (rule sweep_sim_except) (simp_all add: mu_0_1_nonzero)
  have h3: "sim_except 36 (Exited 1 []) (map (command mu_0_1) (take 36 lambdas)) (command mu_0_1 (lambdas ! 36)) = Exited 1 []"
    by (rule sim_except_at) (simp add: length_lambdas)
  note t = failure_aborts_sweep [OF h1 h2 h3]
  from t have "\<forall>status out. Exited 1 [] = Exited status out \<and> status \<noteq> 0 \<longrightarrow>
            process (sim_except 36 (Exited 1 [])) [] mu_0_1 =
              (Inl (CalledProcessError status), [] @ map (command mu_0_1) (take (Suc 36) lambdas))"
    by (rule conjunct1 [OF conjunct2 [OF conjunct2]])
  then have "process (sim_except 36 (Exited 1 [])) [] mu_0_1 =
      (Inl (CalledProcessError 1), [] @ map (command mu_0_1) (take (Suc 36) lambdas))"
    by simp
  then show ?thesis
    using h1 h2 h3 by (simp add: length_lambdas)
qed

subsection \<open>Splitting the text of the output\<close>

lemma split_on_nonempty: "split_on sep s \<noteq> []"
  by (induction sep s rule: split_on.induct) (auto split: list.splits)

lemma split_on_Cons_through:
  "\<not> (sep \<noteq> [] \<and> prefix sep (c # s)) \<Longrightarrow>
   split_on sep (c # s) = (c # hd (split_on sep s)) # tl (split_on sep s)"
  using split_on_nonempty [of sep s] by (auto split: list.splits)

lemma prefix_sep_bt: "prefix sep_bt (x # s) \<longleftrightarrow> x = backslash \<and> s \<noteq> [] \<and> hd s = CHR ''t''"
  by (cases s) (auto simp: sep_bt_def)

lemma split_bt_Nil: "split_on sep_bt [] = [[]]"
  by simp

lemma split_bt_Cons:
  "split_on sep_bt (x # s) =
     (if x = backslash \<and> s \<noteq> [] \<and> hd s = CHR ''t'' then [] # split_on sep_bt (tl s)
      else (x # hd (split_on sep_bt s)) # tl (split_on sep_bt s))"
proof (cases "x = backslash \<and> s \<noteq> [] \<and> hd s = CHR ''t''")
  case True
  then obtain s' where "s = CHR ''t'' # s'" by (cases s) auto
  then show ?thesis using True by (simp add: sep_bt_def)
next
  case False
  then have "\<not> (sep_bt \<noteq> [] \<and> prefix sep_bt (x # s))" by (simp add: prefix_sep_bt)
  from split_on_Cons_through [OF this] False show ?thesis by simp
qed

lemma split_tab_Cons:
  "split_on [tab] (x # s) =
     (if x = tab then [] # split_on [tab] s
      else (x # hd (split_on [tab] s)) # tl (split_on [tab] s))"
  using split_on_nonempty [of "[tab]" s] by (auto split: list.splits)

lemma hexdigit_not_special: "n < 16 \<Longrightarrow> hexdigit n \<noteq> backslash \<and> hexdigit n \<noteq> CHR ''t''"
proof -
  assume "n < 16"
  then have "hexdigit n \<in> set ''0123456789abcdef''"
    unfolding hexdigit_def by (intro nth_mem) simp
  then show ?thesis by (auto simp: backslash_def)
qed

text \<open>The escape of a byte begins with the letter t only for the byte t.\<close>

lemma hd_escape_byte: "q \<noteq> CHR ''t'' \<Longrightarrow> hd (escape_byte q c) = CHR ''t'' \<Longrightarrow> c = CHR ''t''"
  by (auto simp: escape_byte_def backslash_def split: if_splits)

lemma escape_byte_nonempty: "escape_byte q c \<noteq> []"
  by (simp add: escape_byte_def)

lemma hd_escape_bytes:
  "q \<noteq> CHR ''t'' \<Longrightarrow> hd (escape_bytes q cs @ [q]) = CHR ''t'' \<Longrightarrow> cs \<noteq> [] \<and> hd cs = CHR ''t''"
proof (cases cs)
  case Nil
  assume "q \<noteq> CHR ''t''" "hd (escape_bytes q cs @ [q]) = CHR ''t''"
  then show ?thesis using Nil by (simp add: escape_bytes_def)
next
  case (Cons c cs')
  assume q: "q \<noteq> CHR ''t''" and h: "hd (escape_bytes q cs @ [q]) = CHR ''t''"
  have "hd (escape_bytes q cs @ [q]) = hd (escape_byte q c)"
    using Cons escape_byte_nonempty [of q c] by (simp add: escape_bytes_def)
  then show ?thesis using hd_escape_byte [OF q, of c] h Cons by simp
qed

lemma tab_fields_Nil: "tab_fields [] = [[]]"
  by (simp add: tab_fields_def)

lemma tab_fields_Cons:
  "tab_fields (c # cs) =
     (if c = tab then [] # tab_fields cs else (c # hd (tab_fields cs)) # tl (tab_fields cs))"
  unfolding tab_fields_def by (rule split_tab_Cons)

lemma tab_fields_nonempty: "tab_fields raw \<noteq> []"
  by (simp add: tab_fields_def split_on_nonempty)

lemma escape_bytes_Nil: "escape_bytes q [] = []"
  by (simp add: escape_bytes_def)

lemma escape_bytes_Cons: "escape_bytes q (c # cs) = escape_byte q c @ escape_bytes q cs"
  by (simp add: escape_bytes_def)

lemma escape_tab: "q \<noteq> tab \<Longrightarrow> escape_byte q tab = [backslash, CHR ''t'']"
  by (simp add: escape_byte_def tab_def backslash_def)

lemma split_escape_byte:
  assumes "c \<noteq> tab" "q \<noteq> backslash" "q \<noteq> CHR ''t''"
    and "c = backslash \<longrightarrow> \<not> (rest \<noteq> [] \<and> hd rest = CHR ''t'')"
  shows "split_on sep_bt (escape_byte q c @ rest) =
           (escape_byte q c @ hd (split_on sep_bt rest)) # tl (split_on sep_bt rest)"
proof -
  have h: "hexdigit (of_char c div 16) \<noteq> backslash" "hexdigit (of_char c mod 16) \<noteq> backslash"
          "hexdigit (of_char c div 16) \<noteq> CHR ''t''"
    if "(of_char c :: nat) < 32 \<or> 127 \<le> (of_char c :: nat)"
  proof -
    have "(of_char c :: nat) < 256" by simp
    then have "(of_char c :: nat) div 16 < 16" "(of_char c :: nat) mod 16 < 16" by arith+
    then show "hexdigit (of_char c div 16) \<noteq> backslash" "hexdigit (of_char c mod 16) \<noteq> backslash"
          "hexdigit (of_char c div 16) \<noteq> CHR ''t''"
      using hexdigit_not_special by blast+
  qed
  consider (q) "c = q" | (bs) "c = backslash" | (n) "c = CHR 0x0A" "c \<noteq> q" | (r) "c = CHR 0x0D" "c \<noteq> q"
    | (x) "c \<noteq> q" "c \<noteq> backslash" "c \<noteq> CHR 0x0A" "c \<noteq> CHR 0x0D" "(of_char c :: nat) < 32 \<or> 127 \<le> (of_char c :: nat)"
    | (p) "c \<noteq> q" "c \<noteq> backslash" "c \<noteq> CHR 0x0A" "c \<noteq> CHR 0x0D" "\<not> ((of_char c :: nat) < 32 \<or> 127 \<le> (of_char c :: nat))"
    by blast
  then show ?thesis
  proof cases
    case q
    then show ?thesis using assms by (simp add: escape_byte_def split_bt_Cons del: split_on.simps)
  next
    case bs
    then show ?thesis using assms
      by (simp add: escape_byte_def split_bt_Cons del: split_on.simps) (simp add: backslash_def)
  next
    case n
    then have "escape_byte q c = [backslash, CHR ''n'']" by (simp add: escape_byte_def backslash_def)
    then show ?thesis by (simp add: split_bt_Cons backslash_def del: split_on.simps)
  next
    case r
    then have "escape_byte q c = [backslash, CHR ''r'']" by (simp add: escape_byte_def backslash_def)
    then show ?thesis by (simp add: split_bt_Cons backslash_def del: split_on.simps)
  next
    case x
    then have "escape_byte q c = [backslash, CHR ''x'', hexdigit (of_char c div 16), hexdigit (of_char c mod 16)]"
      using assms(1) by (simp add: escape_byte_def tab_def)
    then show ?thesis using h [OF x(5)]
      by (simp add: split_bt_Cons backslash_def del: split_on.simps)
  next
    case p
    then have "escape_byte q c = [c]"
      using assms(1) by (simp add: escape_byte_def tab_def)
    then show ?thesis using p(2) by (simp add: split_bt_Cons del: split_on.simps)
  qed
qed

lemma no_bt_tl: "no_bt (c # cs) \<Longrightarrow> no_bt cs"
  by (cases cs) auto

lemma no_bt_hd: "no_bt (backslash # cs) \<Longrightarrow> \<not> (cs \<noteq> [] \<and> hd cs = CHR ''t'')"
  by (cases cs) auto

text \<open>
  Where no backslash stands before a t, the text of the bytes splits at the two-character
  separator as the bytes split at the tabs, field by field.
\<close>

lemma split_escape:
  assumes q: "q \<noteq> backslash" "q \<noteq> CHR ''t''" "q \<noteq> tab"
  shows "no_bt raw \<Longrightarrow>
     split_on sep_bt (escape_bytes q raw @ [q]) =
       butlast (map (escape_bytes q) (tab_fields raw)) @ [escape_bytes q (last (tab_fields raw)) @ [q]]"
proof (induction raw)
  case Nil
  show ?case using q
    by (simp add: escape_bytes_Nil tab_fields_Nil split_bt_Cons split_bt_Nil del: split_on.simps)
next
  case (Cons c cs)
  let ?rest = "escape_bytes q cs @ [q]"
  let ?fs = "tab_fields cs"
  have ih: "split_on sep_bt ?rest = butlast (map (escape_bytes q) ?fs) @ [escape_bytes q (last ?fs) @ [q]]"
    using Cons.IH no_bt_tl [OF Cons.prems] by simp
  show ?case
  proof (cases "c = tab")
    case True
    have "split_on sep_bt (escape_bytes q (c # cs) @ [q]) = [] # split_on sep_bt ?rest"
      using True q by (simp add: escape_bytes_Cons escape_tab split_bt_Cons del: split_on.simps)
    then show ?thesis
      using True ih tab_fields_nonempty [of cs]
      by (simp add: tab_fields_Cons escape_bytes_Nil escape_bytes_Cons)
  next
    case False
    have side: "c = backslash \<longrightarrow> \<not> (?rest \<noteq> [] \<and> hd ?rest = CHR ''t'')"
      using hd_escape_bytes [OF q(2), of cs] no_bt_hd [of cs] Cons.prems by auto
    have sp: "split_on sep_bt (escape_bytes q (c # cs) @ [q]) =
        (escape_byte q c @ hd (split_on sep_bt ?rest)) # tl (split_on sep_bt ?rest)"
      using split_escape_byte [OF False q(1) q(2) side] by (simp add: escape_bytes_Cons)
    show ?thesis
    proof (cases ?fs)
      case Nil
      then show ?thesis using tab_fields_nonempty [of cs] by simp
    next
      case (Cons f fs')
      show ?thesis
      proof (cases fs')
        case Nil
        then show ?thesis using sp ih Cons False
          by (simp add: tab_fields_Cons escape_bytes_Cons)
      next
        case (Cons g fs'')
        then show ?thesis using sp ih \<open>?fs = f # fs'\<close> False
          by (simp add: tab_fields_Cons escape_bytes_Cons)
      qed
    qed
  qed
qed

lemma quote_of_cases: "quote_of raw = squote \<or> quote_of raw = dquote"
  by (simp add: quote_of_def)

lemma quote_of_props: "quote_of raw \<noteq> backslash" "quote_of raw \<noteq> CHR ''t''" "quote_of raw \<noteq> tab"
  using quote_of_cases [of raw] by (auto simp: squote_def dquote_def backslash_def tab_def)

text \<open>The fields of \<^verbatim>\<open>str(raw).split("\\t")\<close>, for a raw output with \<open>no_bt\<close>.\<close>

lemma split_bytes_str:
  assumes "no_bt raw"
  shows "split_on sep_bt (bytes_str raw) =
     (CHR ''b'' # quote_of raw #
        hd (butlast (map (escape_bytes (quote_of raw)) (tab_fields raw)) @
            [escape_bytes (quote_of raw) (last (tab_fields raw)) @ [quote_of raw]])) #
     tl (butlast (map (escape_bytes (quote_of raw)) (tab_fields raw)) @
            [escape_bytes (quote_of raw) (last (tab_fields raw)) @ [quote_of raw]])"
proof -
  let ?q = "quote_of raw"
  let ?S = "split_on sep_bt (escape_bytes ?q raw @ [?q])"
  have S: "?S = butlast (map (escape_bytes ?q) (tab_fields raw)) @
       [escape_bytes ?q (last (tab_fields raw)) @ [?q]]"
    using split_escape [OF quote_of_props, of raw] assms by simp
  have "split_on sep_bt (bytes_str raw) = (CHR ''b'' # ?q # hd ?S) # tl ?S"
    using quote_of_props(1) [of raw]
    by (simp add: bytes_str_def split_bt_Cons backslash_def del: split_on.simps)
  then show ?thesis
    using S by simp
qed

subsection \<open>What \<^verbatim>\<open>float\<close> accepts\<close>

lemma float_of_str_error: "float_of_str s = Inl e \<Longrightarrow> e = ValueError"
  by (auto simp: float_of_str_def Let_def split: option.splits prod.splits if_splits)

lemma rm_underscores_set:
  "rm_underscores prev s = Some t \<Longrightarrow> set s \<subseteq> set t \<union> {CHR ''_''}"
proof (induction s arbitrary: prev t)
  case Nil
  then show ?case by simp
next
  case (Cons c cs)
  show ?case
  proof (cases "c = CHR ''_''")
    case True
    then have "rm_underscores c cs = Some t"
      using Cons.prems by (simp split: if_splits)
    from Cons.IH [OF this] True show ?thesis by auto
  next
    case False
    then obtain t' where t': "rm_underscores c cs = Some t'" "t = c # t'"
      using Cons.prems by (auto split: if_splits)
    from Cons.IH [OF t'(1)] t'(2) show ?thesis by auto
  qed
qed

lemma dropWhile_set: "set xs \<subseteq> set (dropWhile P xs) \<union> {c. P c}"
proof -
  have "set xs = set (takeWhile P xs) \<union> set (dropWhile P xs)"
    by (metis set_append takeWhile_dropWhile_id)
  then show ?thesis by (auto dest: set_takeWhileD)
qed

lemma strip_space_set: "set t \<subseteq> set (strip_space t) \<union> {c. is_space c}"
proof -
  have "set t \<subseteq> set (dropWhile is_space t) \<union> {c. is_space c}" by (rule dropWhile_set)
  moreover have "set (rev (dropWhile is_space t)) \<subseteq>
      set (dropWhile is_space (rev (dropWhile is_space t))) \<union> {c. is_space c}"
    by (rule dropWhile_set)
  ultimately show ?thesis by (auto simp: strip_space_def)
qed

lemma parse_sign_set: "parse_sign s = (neg, r) \<Longrightarrow> set s \<subseteq> set r \<union> {CHR ''+'', CHR ''-''}"
  by (cases s) (auto split: if_splits)

lemma dropWhile_Nil_all: "dropWhile P xs = [] \<Longrightarrow> \<forall>c\<in>set xs. P c"
  by (simp add: dropWhile_eq_Nil_conv)

lemma parse_exponent_set:
  assumes "parse_exponent s = (ex, [])"
  shows "\<forall>c\<in>set s. is_digit c \<or> c \<in> set ''+-eE''"
proof (cases s)
  case Nil
  then show ?thesis by simp
next
  case (Cons c r)
  obtain neg r' where ps: "parse_sign r = (neg, r')" by (cases "parse_sign r")
  from assms Cons ps have c: "c = CHR ''e'' \<or> c = CHR ''E''" and d: "dropWhile is_digit r' = []"
    by (auto simp: parse_exponent_def Let_def split: if_splits)
  from d have "\<forall>x\<in>set r'. is_digit x" by (rule dropWhile_Nil_all)
  then have "\<forall>x\<in>set r. is_digit x \<or> x \<in> set ''+-''"
    using parse_sign_set [OF ps] by auto
  then show ?thesis using c Cons by auto
qed

lemma strtod_snd:
  "parse_sign u = (neg, s1) \<Longrightarrow> strtod u = Some (x, rest) \<Longrightarrow>
   rest = snd (parse_exponent (snd (case dropWhile is_digit s1 of
              [] \<Rightarrow> ([], dropWhile is_digit s1)
            | c # r \<Rightarrow> if c = CHR ''.'' then (takeWhile is_digit r, dropWhile is_digit r)
                       else ([], dropWhile is_digit s1))))"
  by (simp add: strtod_def Let_def split_beta split: if_splits)

lemma strtod_set:
  assumes "strtod u = Some (x, [])"
  shows "\<forall>c\<in>set u. is_digit c \<or> c \<in> set ''+-.eE''"
proof -
  obtain neg s1 where ps: "parse_sign u = (neg, s1)" by (cases "parse_sign u")
  define s2 where "s2 = dropWhile is_digit s1"
  define s3 where "s3 = (case s2 of [] \<Rightarrow> s2 | c # r \<Rightarrow> if c = CHR ''.'' then dropWhile is_digit r else s2)"
  have s1: "set s1 \<subseteq> set s2 \<union> {c. is_digit c}"
    unfolding s2_def by (rule dropWhile_set)
  have s2: "set s2 \<subseteq> set s3 \<union> {c. is_digit c} \<union> {CHR ''.''}"
  proof (cases s2)
    case Nil
    then show ?thesis by (simp add: s3_def)
  next
    case (Cons c r)
    show ?thesis
    proof (cases "c = CHR ''.''")
      case True
      then have "s3 = dropWhile is_digit r" using Cons by (simp add: s3_def)
      then show ?thesis using dropWhile_set [of r is_digit] Cons True by auto
    next
      case False
      then have "s3 = s2" using Cons by (simp add: s3_def)
      then show ?thesis by auto
    qed
  qed
  have e: "s3 = snd (case s2 of [] \<Rightarrow> ([], s2)
            | c # r \<Rightarrow> if c = CHR ''.'' then (takeWhile is_digit r, dropWhile is_digit r) else ([], s2))"
    by (cases s2) (simp_all add: s3_def)
  have "snd (parse_exponent s3) = []"
    using strtod_snd [OF ps assms] unfolding e s2_def by simp
  then have "parse_exponent s3 = (fst (parse_exponent s3), [])"
    by (metis prod.collapse)
  from parse_exponent_set [OF this] have s3: "\<forall>c\<in>set s3. is_digit c \<or> c \<in> set ''+-eE''" .
  show ?thesis
  proof
    fix c assume "c \<in> set u"
    then have "c \<in> set s1 \<or> c = CHR ''+'' \<or> c = CHR ''-''"
      using parse_sign_set [OF ps] by auto
    then have "c \<in> set s2 \<or> is_digit c \<or> c = CHR ''+'' \<or> c = CHR ''-''"
      using s1 by auto
    then have "c \<in> set s3 \<or> is_digit c \<or> c = CHR ''.'' \<or> c = CHR ''+'' \<or> c = CHR ''-''"
      using s2 by auto
    then show "is_digit c \<or> c \<in> set ''+-.eE''"
      using s3 by auto
  qed
qed

lemma map_lower_set:
  assumes "map lower r = w"
  shows "\<forall>c\<in>set r. lower c \<in> set w"
  using assms by auto

lemma parse_inf_or_nan_set:
  assumes "parse_inf_or_nan u = Some (x, [])"
  shows "\<forall>c\<in>set u. c \<in> set ''+-'' \<or> lower c \<in> set ''infinityna''"
proof -
  obtain neg r where ps: "parse_sign u = (neg, r)" by (cases "parse_sign u")
  let ?l = "map lower r"
  from assms ps consider
      (inf8) "take 3 ?l = ''inf''" "take 5 (drop 3 ?l) = ''inity''" "drop 8 r = []"
    | (inf3) "take 3 ?l = ''inf''" "drop 3 r = []"
    | (nan) "take 3 ?l = ''nan''" "drop 3 r = []"
    by (auto simp: parse_inf_or_nan_def Let_def split: if_splits)
  then have "?l = ''infinity'' \<or> ?l = ''inf'' \<or> ?l = ''nan''"
  proof cases
    case inf8
    have "take (3 + 5) ?l = take 3 ?l @ take 5 (drop 3 ?l)" by (rule take_add)
    moreover have "take (3 + 5) ?l = ?l" using inf8(3) by simp
    ultimately show ?thesis using inf8 by simp
  next
    case inf3
    then have "take 3 ?l = ?l" by simp
    then show ?thesis using inf3 by simp
  next
    case nan
    then have "take 3 ?l = ?l" by simp
    then show ?thesis using nan by simp
  qed
  then have "\<forall>c\<in>set r. lower c \<in> set ''infinityna''"
    using map_lower_set [of r] by fastforce
  then show ?thesis using parse_sign_set [OF ps] by auto
qed

lemma float_of_str_accepted:
  assumes "float_of_str s = Inr v"
  shows "\<forall>c\<in>set s. accepted c"
proof -
  from assms obtain t where t: "rm_underscores (CHR 0x00) s = Some t"
    by (auto simp: float_of_str_def split: option.splits)
  let ?u = "strip_space t"
  from assms t have "(\<exists>x. strtod ?u = Some (x, [])) \<or> (\<exists>x. parse_inf_or_nan ?u = Some (x, []))"
    by (auto simp: float_of_str_def Let_def split: option.splits if_splits)
  then have u: "\<forall>c\<in>set ?u. is_digit c \<or> c \<in> set ''+-.eE'' \<or> lower c \<in> set ''infinityna''"
    using strtod_set parse_inf_or_nan_set by fastforce
  show ?thesis
  proof
    fix c assume "c \<in> set s"
    then have "c \<in> set t \<or> c = CHR ''_''" using rm_underscores_set [OF t] by auto
    then have "c \<in> set ?u \<or> is_space c \<or> c = CHR ''_''" using strip_space_set [of t] by auto
    then show "accepted c" using u by (auto simp: accepted_def)
  qed
qed

lemma accepted_cases:
  assumes "accepted c"
  shows "is_digit c \<or> is_space c \<or> c \<in> set ''+-.eE_'' \<or>
         (65 \<le> (of_char c :: nat) \<and> (of_char c :: nat) \<le> 90) \<or> c \<in> set ''infinityna''"
proof (cases "65 \<le> (of_char c :: nat) \<and> (of_char c :: nat) \<le> 90")
  case True
  then show ?thesis by blast
next
  case False
  then have "lower c = c" by (auto simp: lower_def)
  then show ?thesis using assms unfolding accepted_def by metis
qed

lemma accepted_printable:
  assumes "accepted c"
  shows "c \<noteq> backslash \<and> c \<noteq> CHR ''b'' \<and>
         (\<not> is_space c \<longrightarrow> 32 \<le> (of_char c :: nat) \<and> (of_char c :: nat) < 127 \<and> c \<noteq> squote \<and> c \<noteq> dquote)"
proof -
  from accepted_cases [OF assms] consider (d) "is_digit c" | (s) "is_space c" | (p) "c \<in> set ''+-.eE_''"
    | (u) "65 \<le> (of_char c :: nat)" "(of_char c :: nat) \<le> 90"
    | (l) "c \<in> set ''infinityna''"
    by blast
  then show ?thesis
  proof cases
    case d then show ?thesis by (auto simp: is_digit_def squote_def dquote_def backslash_def)
  next
    case s then show ?thesis by (auto simp: is_space_def backslash_def)
  next
    case p then show ?thesis by (auto simp: squote_def dquote_def backslash_def)
  next
    case u
    have "of_char squote = (39::nat)" "of_char dquote = (34::nat)" "of_char backslash = (92::nat)"
      "of_char (CHR ''b'') = (98::nat)"
      by (simp_all add: squote_def dquote_def backslash_def)
    then show ?thesis using u by auto
  next
    case l then show ?thesis by (auto simp: squote_def dquote_def backslash_def)
  qed
qed

lemma accepted_not_special: "accepted c \<Longrightarrow> c \<noteq> backslash \<and> c \<noteq> CHR ''b''"
  using accepted_printable by blast

lemma space_cases: "is_space c \<Longrightarrow> is_break c \<or> c = tab \<or> c = CHR 0x20"
  by (auto simp: is_space_def is_break_def tab_def)

lemma escape_byte_plain:
  assumes "32 \<le> (of_char c :: nat)" "(of_char c :: nat) < 127" "c \<noteq> q" "c \<noteq> backslash"
  shows "escape_byte q c = [c]"
proof -
  have "c \<noteq> CHR 0x09" "c \<noteq> CHR 0x0A" "c \<noteq> CHR 0x0D" using assms(1) by auto
  then show ?thesis using assms by (simp add: escape_byte_def)
qed

lemma escape_byte_changes: "escape_byte q c \<noteq> [c] \<Longrightarrow> backslash \<in> set (escape_byte q c)"
  by (auto simp: escape_byte_def split: if_splits)

lemma escape_bytes_changes: "escape_bytes q f \<noteq> f \<Longrightarrow> backslash \<in> set (escape_bytes q f)"
proof (induction f)
  case Nil
  then show ?case by (simp add: escape_bytes_Nil)
next
  case (Cons c f)
  then show ?case
    using escape_byte_changes [of q c] by (cases "escape_byte q c = [c]") (auto simp: escape_bytes_Cons)
qed

lemma float_fails_backslash: "backslash \<in> set s \<Longrightarrow> float_of_str s = Inl ValueError"
proof -
  assume b: "backslash \<in> set s"
  show ?thesis
  proof (cases "float_of_str s")
    case (Inl e)
    then show ?thesis using float_of_str_error by simp
  next
    case (Inr v)
    from float_of_str_accepted [OF this] b have "accepted backslash" by blast
    then show ?thesis using accepted_not_special by blast
  qed
qed

lemma float_fails_b: "float_of_str (CHR ''b'' # s) = Inl ValueError"
proof (cases "float_of_str (CHR ''b'' # s)")
  case (Inl e)
  then show ?thesis using float_of_str_error by simp
next
  case (Inr v)
  from float_of_str_accepted [OF this] have "accepted (CHR ''b'')" by simp
  then show ?thesis using accepted_not_special by blast
qed

text \<open>
  A field without break characters and tabs is numeric for \<^verbatim>\<open>float\<close> after the
  escaping exactly when it is numeric before, with the same value.
\<close>

lemma float_of_escaped:
  assumes q: "q = squote \<or> q = dquote" and f: "\<forall>c\<in>set f. \<not> is_break c \<and> c \<noteq> tab"
  shows "float_of_str (escape_bytes q f) = float_of_str f"
proof (cases "escape_bytes q f = f")
  case True
  then show ?thesis by simp
next
  case False
  then have l: "float_of_str (escape_bytes q f) = Inl ValueError"
    by (intro float_fails_backslash escape_bytes_changes)
  have "float_of_str f = Inl ValueError"
  proof (cases "float_of_str f")
    case (Inl e)
    then show ?thesis using float_of_str_error by simp
  next
    case (Inr v)
    have "\<forall>c\<in>set f. escape_byte q c = [c]"
    proof
      fix c assume c: "c \<in> set f"
      then have "accepted c" using float_of_str_accepted [OF Inr] by blast
      then have p: "c \<noteq> backslash" "\<not> is_space c \<longrightarrow>
          32 \<le> (of_char c :: nat) \<and> (of_char c :: nat) < 127 \<and> c \<noteq> squote \<and> c \<noteq> dquote"
        using accepted_printable [of c] by blast+
      have "32 \<le> (of_char c :: nat) \<and> (of_char c :: nat) < 127 \<and> c \<noteq> squote \<and> c \<noteq> dquote"
      proof (cases "is_space c")
        case True
        then have "c = CHR 0x20" using space_cases [of c] f c by blast
        then show ?thesis by (simp add: squote_def dquote_def)
      next
        case False
        then show ?thesis using p(2) by blast
      qed
      then show "escape_byte q c = [c]"
        using p(1) q by (intro escape_byte_plain) auto
    qed
    then have "escape_bytes q f = f"
      by (induction f) (simp_all add: escape_bytes_Nil escape_bytes_Cons)
    then show ?thesis using False by simp
  qed
  then show ?thesis using l by simp
qed

lemma tab_fields_no_tab: "f \<in> set (tab_fields raw) \<Longrightarrow> tab \<notin> set f"
proof (induction raw arbitrary: f)
  case Nil
  then show ?case by (simp add: tab_fields_Nil)
next
  case (Cons c cs)
  show ?case
  proof (cases "c = tab")
    case True
    then show ?thesis using Cons by (auto simp: tab_fields_Cons)
  next
    case False
    from tab_fields_nonempty [of cs] obtain g gs where g: "tab_fields cs = g # gs"
      by (cases "tab_fields cs") auto
    then have "f = c # g \<or> f \<in> set gs" using Cons.prems False by (simp add: tab_fields_Cons)
    then show ?thesis using Cons.IH [of g] Cons.IH [of f] g False by auto
  qed
qed

text \<open>The fields of the text, by number, for a raw output with \<open>no_bt\<close>.\<close>

lemma split_bytes_str_length:
  "no_bt raw \<Longrightarrow> length (split_on sep_bt (bytes_str raw)) = length (tab_fields raw)"
  using tab_fields_nonempty [of raw] by (simp add: split_bytes_str)

lemma split_bytes_str_first:
  assumes "no_bt raw" "2 \<le> length (tab_fields raw)"
  shows "split_on sep_bt (bytes_str raw) ! 0 =
           CHR ''b'' # quote_of raw # escape_bytes (quote_of raw) (tab_fields raw ! 0)"
proof -
  from assms(2) obtain f g fs where "tab_fields raw = f # g # fs"
    by (cases "tab_fields raw"; cases "tl (tab_fields raw)") auto
  then show ?thesis using assms(1) by (simp add: split_bytes_str)
qed

lemma split_bytes_str_middle:
  assumes "no_bt raw" "0 < i" "Suc i < length (tab_fields raw)"
  shows "split_on sep_bt (bytes_str raw) ! i = escape_bytes (quote_of raw) (tab_fields raw ! i)"
proof -
  let ?fs = "map (escape_bytes (quote_of raw)) (tab_fields raw)"
  let ?F = "butlast ?fs @ [escape_bytes (quote_of raw) (last (tab_fields raw)) @ [quote_of raw]]"
  obtain j where j: "i = Suc j" using assms(2) by (cases i) auto
  have "split_on sep_bt (bytes_str raw) ! i = tl ?F ! j"
    using assms(1) j by (simp add: split_bytes_str)
  also have "\<dots> = ?F ! i"
    using j assms(3) by (simp add: nth_tl)
  also have "\<dots> = butlast ?fs ! i"
  proof -
    have "i < length (butlast ?fs)" using assms(3) by simp
    then show ?thesis by (simp add: nth_append)
  qed
  also have "\<dots> = ?fs ! i"
    using assms(3) by (simp add: nth_butlast)
  finally show ?thesis using assms(3) by simp
qed

lemma tab_fields_length: "tab \<in> set raw \<Longrightarrow> 2 \<le> length (tab_fields raw)"
proof (induction raw)
  case Nil
  then show ?case by simp
next
  case (Cons c cs)
  show ?case
  proof (cases "c = tab")
    case True
    then show ?thesis using tab_fields_nonempty [of cs]
      by (cases "tab_fields cs") (simp_all add: tab_fields_Cons)
  next
    case False
    then have "tab \<in> set cs" using Cons.prems by simp
    from Cons.IH [OF this] show ?thesis
      using False by (cases "tab_fields cs") (simp_all add: tab_fields_Cons)
  qed
qed

text \<open>
  In the text of bytes without a tab, a field before a separator ends at the backslash
  of an escaped backslash: every field but the last holds a backslash.
\<close>

lemma split_escape_no_tab:
  assumes q: "q \<noteq> backslash" "q \<noteq> CHR ''t''"
  shows "tab \<notin> set raw \<Longrightarrow>
     \<forall>g\<in>set (butlast (split_on sep_bt (escape_bytes q raw @ [q]))). backslash \<in> set g"
proof (induction raw rule: length_induct)
  case (1 raw)
  show ?case
  proof (cases raw)
    case Nil
    then show ?thesis using q
      by (simp add: escape_bytes_Nil split_bt_Cons split_bt_Nil del: split_on.simps)
  next
    case (Cons c cs)
    let ?rest = "escape_bytes q cs @ [q]"
    have c: "c \<noteq> tab" and cs: "tab \<notin> set cs" using 1(2) Cons by auto
    have ih: "\<forall>g\<in>set (butlast (split_on sep_bt ?rest)). backslash \<in> set g"
      using 1(1) [rule_format, of cs] Cons cs by simp
    show ?thesis
    proof (cases "c = backslash \<and> cs \<noteq> [] \<and> hd cs = CHR ''t''")
      case True
      then obtain cs' where cs': "cs = CHR ''t'' # cs'" by (cases cs) auto
      have e: "escape_bytes q raw @ [q] = backslash # backslash # CHR ''t'' # (escape_bytes q cs' @ [q])"
        using q True Cons cs' by (simp add: escape_bytes_Cons escape_byte_def backslash_def)
      have "split_on sep_bt (escape_bytes q raw @ [q]) = [backslash] # split_on sep_bt (escape_bytes q cs' @ [q])"
        unfolding e by (simp add: split_bt_Cons backslash_def del: split_on.simps)
      moreover have "\<forall>g\<in>set (butlast (split_on sep_bt (escape_bytes q cs' @ [q]))). backslash \<in> set g"
        using 1(1) [rule_format, of cs'] Cons cs' cs by simp
      ultimately show ?thesis
        using split_on_nonempty [of sep_bt "escape_bytes q cs' @ [q]"] by simp
    next
      case False
      have side: "c = backslash \<longrightarrow> \<not> (?rest \<noteq> [] \<and> hd ?rest = CHR ''t'')"
        using hd_escape_bytes [OF q(2), of cs] False by auto
      have sp: "split_on sep_bt (escape_bytes q raw @ [q]) =
          (escape_byte q c @ hd (split_on sep_bt ?rest)) # tl (split_on sep_bt ?rest)"
        using split_escape_byte [OF c q(1) q(2) side] Cons by (simp add: escape_bytes_Cons)
      obtain g gs where g: "split_on sep_bt ?rest = g # gs"
        using split_on_nonempty [of sep_bt ?rest] by (cases "split_on sep_bt ?rest") auto
      show ?thesis using sp g ih by (cases gs) auto
    qed
  qed
qed

lemma parse_metric_no_tab:
  assumes "length (tab_fields raw) < 2"
  shows "parse_metric (bytes_str raw) = Inl IndexError \<or> parse_metric (bytes_str raw) = Inl ValueError"
proof -
  let ?q = "quote_of raw"
  let ?F = "split_on sep_bt (escape_bytes ?q raw @ [?q])"
  let ?R = "split_on sep_bt (bytes_str raw)"
  have nt: "tab \<notin> set raw" using assms tab_fields_length [of raw] by auto
  have F: "\<forall>g\<in>set (butlast ?F). backslash \<in> set g"
    using split_escape_no_tab [OF quote_of_props(1,2) nt] .
  have R: "?R = (CHR ''b'' # ?q # hd ?F) # tl ?F"
    using quote_of_props(1) [of raw]
    by (simp add: bytes_str_def split_bt_Cons backslash_def del: split_on.simps)
  show ?thesis
  proof (cases "length ?R < 2")
    case True
    then show ?thesis by (simp add: parse_metric_def index_m2_def del: split_on.simps)
  next
    case False
    then have p: "parse_metric (bytes_str raw) = float_of_str (?R ! (length ?R - 2))"
      by (simp add: parse_metric_def index_m2_def del: split_on.simps)
    show ?thesis
    proof (cases "length ?R = 2")
      case True
      then have "?R ! (length ?R - 2) = CHR ''b'' # ?q # hd ?F" using R by simp
      then show ?thesis using p by (simp add: float_fails_b del: split_on.simps)
    next
      case False
      obtain g gs where g: "?F = g # gs"
        using split_on_nonempty [of sep_bt "escape_bytes ?q raw @ [?q]"] by (cases ?F) auto
      have len1: "3 \<le> length ?R"
        using False \<open>\<not> length ?R < 2\<close> by arith
      have "length ?R = length ?F"
        using R g by simp
      then have len: "3 \<le> length ?R" "length ?R = length ?F"
        using len1 by simp_all
      have "?R ! (length ?R - 2) = ?F ! (length ?F - 2)"
      proof -
        have "length ?F - 2 = Suc (length ?F - 3)" using len by simp
        then have "?R ! (length ?F - 2) = tl ?F ! (length ?F - 3)" using R by simp
        also have "\<dots> = ?F ! Suc (length ?F - 3)" using len by (simp add: nth_tl del: split_on.simps)
        finally show ?thesis using len \<open>length ?F - 2 = Suc (length ?F - 3)\<close> by simp
      qed
      moreover have "?F ! (length ?F - 2) \<in> set (butlast ?F)"
      proof -
        have "length ?F - 2 < length (butlast ?F)" using len by simp
        then have "butlast ?F ! (length ?F - 2) \<in> set (butlast ?F)" by (rule nth_mem)
        then show ?thesis using len by (simp add: nth_butlast del: split_on.simps)
      qed
      ultimately have "backslash \<in> set (?R ! (length ?R - 2))" using F by simp
      then show ?thesis using p by (simp add: float_fails_backslash del: split_on.simps)
    qed
  qed
qed

subsection \<open>The parsed metric\<close>

lemma parse_metric_index:
  assumes "no_bt raw" "2 \<le> length (tab_fields raw)"
  shows "parse_metric (bytes_str raw) =
           float_of_str (split_on sep_bt (bytes_str raw) ! (length (tab_fields raw) - 2))"
  using assms by (simp add: parse_metric_def index_m2_def split_bytes_str_length del: split_on.simps)

text \<open>
  C1, as amended. The parser does not split the raw output: it splits the text that
  \<^verbatim>\<open>str\<close> makes of the bytes, at each backslash followed by a letter t. For every raw
  output in which no backslash stands right before a letter t, which has at least three
  fields between tabs, and whose second-to-last field holds no line feed, vertical tab,
  form feed or carriage return, the parser returns what \<^verbatim>\<open>float\<close> returns for that
  field: its value, or \<^verbatim>\<open>ValueError\<close>. On \<^verbatim>\<open>a<TAB>b<TAB>c<TAB>d<TAB>e\<close> with such
  fields it returns \<^verbatim>\<open>float(d)\<close>.
\<close>

theorem metric_is_float_of_field:
  assumes "no_bt raw" and "3 \<le> length (tab_fields raw)"
    and "\<forall>c\<in>set (tab_fields raw ! (length (tab_fields raw) - 2)). \<not> is_break c"
  shows "parse_metric (bytes_str raw) = float_of_str (tab_fields raw ! (length (tab_fields raw) - 2))"
proof -
  let ?n = "length (tab_fields raw)"
  let ?f = "tab_fields raw ! (?n - 2)"
  have m: "split_on sep_bt (bytes_str raw) ! (?n - 2) = escape_bytes (quote_of raw) ?f"
    using assms(1,2) by (intro split_bytes_str_middle) auto
  have "?f \<in> set (tab_fields raw)" using assms(2) by simp
  then have "tab \<notin> set ?f" by (rule tab_fields_no_tab)
  then have "float_of_str (escape_bytes (quote_of raw) ?f) = float_of_str ?f"
    using assms(3) quote_of_cases [of raw] by (intro float_of_escaped) auto
  then show ?thesis
    using parse_metric_index [of raw] assms(1,2) m by simp
qed

text \<open>The raw output \<^verbatim>\<open>a<TAB>b<TAB>c<TAB>0.25<TAB>e\<close> gives the float 0.25.\<close>

theorem metric_is_float_of_field_witness:
  "no_bt raw_five \<and> 3 \<le> length (tab_fields raw_five) \<and>
   tab_fields raw_five = [''a'', ''b'', ''c'', ''0.25'', ''e''] \<and>
   parse_metric (bytes_str raw_five) = float_of_str (tab_fields raw_five ! (length (tab_fields raw_five) - 2)) \<and>
   float_of_str ''0.25'' = Inr (decimal False 25 (- 2)) \<and>
   parse_metric (bytes_str raw_five) = Inr (decimal False 25 (- 2))"
proof -
  have h1: "no_bt raw_five" by code_simp
  have f: "tab_fields raw_five = [''a'', ''b'', ''c'', ''0.25'', ''e'']" by code_simp
  have h2: "3 \<le> length (tab_fields raw_five)" by (simp add: f)
  have h3: "\<forall>c\<in>set (tab_fields raw_five ! (length (tab_fields raw_five) - 2)). \<not> is_break c"
    by (simp add: f is_break_def)
  have v: "float_of_str ''0.25'' = Inr (decimal False 25 (- 2))" by code_simp
  show ?thesis
    using metric_is_float_of_field [OF h1 h2 h3] h1 h2 f v by simp
qed

text \<open>
  C1 as stated, for every raw output, fails in three ways. With two fields the
  second-to-last field comes with the prefix \<^verbatim>\<open>b'\<close>, and \<^verbatim>\<open>float\<close> raises although
  the field is \<^verbatim>\<open>1.5\<close>. A line feed before \<^verbatim>\<open>1.5\<close> would be stripped by
  \<^verbatim>\<open>float\<close>, but the text has it as a backslash and an n, and \<^verbatim>\<open>float\<close> raises. And
  a backslash before a t is taken for a separator: the field \<^verbatim>\<open>x\t1.5\<close> is not
  numeric, and the parser returns 1.5.
\<close>

theorem metric_is_float_of_field_counterexample:
  "index_m2 (tab_fields raw_two) = Inr ''1.5'' \<and> float_of_str ''1.5'' = Inr f_1_5 \<and>
   parse_metric (bytes_str raw_two) = Inl ValueError \<and>
   index_m2 (tab_fields raw_break) = Inr [CHR 0x0A, CHR ''1'', CHR ''.'', CHR ''5''] \<and>
   float_of_str [CHR 0x0A, CHR ''1'', CHR ''.'', CHR ''5''] = Inr f_1_5 \<and>
   parse_metric (bytes_str raw_break) = Inl ValueError \<and>
   index_m2 (tab_fields raw_bt_three) = Inr [CHR ''x'', backslash, CHR ''t'', CHR ''1'', CHR ''.'', CHR ''5''] \<and>
   float_of_str [CHR ''x'', backslash, CHR ''t'', CHR ''1'', CHR ''.'', CHR ''5''] = Inl ValueError \<and>
   parse_metric (bytes_str raw_bt_three) = Inr f_1_5"
  by code_simp

text \<open>
  C2, as amended. A raw output with fewer than two fields between tabs makes the parser
  raise \<^verbatim>\<open>IndexError\<close> or \<^verbatim>\<open>ValueError\<close> (\<^verbatim>\<open>IndexError\<close> when no backslash stands
  right before a letter t). A raw output in which no backslash stands right before a
  letter t and whose second-to-last field is one that \<^verbatim>\<open>float\<close> rejects makes the
  parser raise \<^verbatim>\<open>ValueError\<close>. These two exceptions are what the spec calls
  \<^verbatim>\<open>ParseError\<close>.
\<close>

theorem parse_failures:
  "(length (tab_fields raw) < 2 \<longrightarrow>
      parse_metric (bytes_str raw) = Inl IndexError \<or> parse_metric (bytes_str raw) = Inl ValueError) \<and>
   (no_bt raw \<longrightarrow>
      (length (tab_fields raw) < 2 \<longrightarrow> parse_metric (bytes_str raw) = Inl IndexError) \<and>
      (2 \<le> length (tab_fields raw) \<and>
       float_of_str (tab_fields raw ! (length (tab_fields raw) - 2)) = Inl ValueError \<longrightarrow>
         parse_metric (bytes_str raw) = Inl ValueError))"
proof (intro conjI impI)
  assume "length (tab_fields raw) < 2"
  then show "parse_metric (bytes_str raw) = Inl IndexError \<or> parse_metric (bytes_str raw) = Inl ValueError"
    by (rule parse_metric_no_tab)
next
  assume "no_bt raw" "length (tab_fields raw) < 2"
  then show "parse_metric (bytes_str raw) = Inl IndexError"
    by (simp add: parse_metric_def index_m2_def split_bytes_str_length del: split_on.simps)
next
  let ?n = "length (tab_fields raw)"
  let ?f = "tab_fields raw ! (?n - 2)"
  assume nb: "no_bt raw" and a: "2 \<le> ?n \<and> float_of_str ?f = Inl ValueError"
  show "parse_metric (bytes_str raw) = Inl ValueError"
  proof (cases "?n = 2")
    case True
    then have "split_on sep_bt (bytes_str raw) ! (?n - 2) =
        CHR ''b'' # quote_of raw # escape_bytes (quote_of raw) (tab_fields raw ! 0)"
      using split_bytes_str_first [OF nb] by simp
    then show ?thesis
      using parse_metric_index [OF nb] a by (simp add: float_fails_b)
  next
    case False
    then have m: "split_on sep_bt (bytes_str raw) ! (?n - 2) = escape_bytes (quote_of raw) ?f"
      using nb a by (intro split_bytes_str_middle) auto
    have "float_of_str (escape_bytes (quote_of raw) ?f) = Inl ValueError"
    proof (cases "escape_bytes (quote_of raw) ?f = ?f")
      case True
      then show ?thesis using a by simp
    next
      case False
      then show ?thesis by (intro float_fails_backslash escape_bytes_changes)
    qed
    then show ?thesis
      using parse_metric_index [OF nb] a m by simp
  qed
qed

theorem parse_failures_witness:
  "length (tab_fields raw_bt_word) < 2 \<and> parse_metric (bytes_str raw_bt_word) = Inl ValueError \<and>
   no_bt raw_word \<and> length (tab_fields raw_word) < 2 \<and> parse_metric (bytes_str raw_word) = Inl IndexError \<and>
   no_bt raw_text \<and> 2 \<le> length (tab_fields raw_text) \<and>
   tab_fields raw_text ! (length (tab_fields raw_text) - 2) = ''abc'' \<and>
   float_of_str ''abc'' = Inl ValueError \<and>
   parse_metric (bytes_str raw_text) = Inl ValueError"
proof -
  have b: "length (tab_fields raw_bt_word) < 2" "parse_metric (bytes_str raw_bt_word) \<noteq> Inl IndexError"
    by code_simp+
  have w: "no_bt raw_word" "length (tab_fields raw_word) < 2" by code_simp+
  have t: "no_bt raw_text" "tab_fields raw_text = [''x'', ''y'', ''abc'', ''z'']"
    "float_of_str ''abc'' = Inl ValueError" by code_simp+
  show ?thesis
    using parse_failures [of raw_bt_word] parse_failures [of raw_word] parse_failures [of raw_text]
      b w t by simp
qed

text \<open>
  C2 as stated fails on \<^verbatim>\<open>x\t1.5<TAB>y\<close>, where \<^verbatim>\<open>\t\<close> is a backslash and a t: the
  second-to-last of the two fields is \<^verbatim>\<open>x\t1.5\<close>, which \<^verbatim>\<open>float\<close> rejects, and the
  parser returns 1.5.
\<close>

theorem parse_failures_counterexample:
  "index_m2 (tab_fields raw_bt_two) = Inr [CHR ''x'', backslash, CHR ''t'', CHR ''1'', CHR ''.'', CHR ''5''] \<and>
   float_of_str [CHR ''x'', backslash, CHR ''t'', CHR ''1'', CHR ''.'', CHR ''5''] = Inl ValueError \<and>
   parse_metric (bytes_str raw_bt_two) = Inr f_1_5"
  by code_simp

subsection \<open>Rounding\<close>

lemma bitlen_bounds:
  "0 < n \<Longrightarrow> 1 \<le> bitlen n \<and> 2 ^ nat (bitlen n - 1) \<le> n \<and> n < 2 ^ nat (bitlen n)"
proof (induction n rule: bitlen.induct)
  case (1 n)
  show ?case
  proof (cases "n div 2 = 0")
    case True
    then have "n = 1" using 1(2) by presburger
    then show ?thesis by (simp add: bitlen.simps)
  next
    case False
    then have pos: "0 < n div 2" using 1(2) by presburger
    have ih: "1 \<le> bitlen (n div 2)" "2 ^ nat (bitlen (n div 2) - 1) \<le> n div 2"
      "n div 2 < 2 ^ nat (bitlen (n div 2))"
      using 1(1) [OF _ pos] 1(2) by simp_all
    define k where "k = bitlen (n div 2)"
    have b: "bitlen n = 1 + k" using 1(2) by (subst bitlen.simps) (simp add: k_def)
    have k: "1 \<le> k" "2 ^ nat (k - 1) \<le> n div 2" "n div 2 < 2 ^ nat k"
      using ih by (simp_all add: k_def)
    have p: "(2::int) ^ nat k = 2 * 2 ^ nat (k - 1)"
      using k(1) by (metis Suc_nat_eq_nat_zadd1 add.commute diff_add_cancel diff_ge_0_iff_ge power_Suc)
    have "(2::int) ^ nat (1 + k) = 2 * 2 ^ nat k"
      using k(1) by (simp add: nat_add_distrib)
    moreover have "nat (1 + k - 1) = nat k" by simp
    moreover have "2 * 2 ^ nat (k - 1) \<le> n" using k(2) by presburger
    moreover have "n < 2 * 2 ^ nat k" using k(3) by presburger
    ultimately show ?thesis using b k(1) p by simp
  qed
qed

lemma bitlen_real:
  assumes "0 < n"
  shows "2 powi (bitlen n - 1) \<le> real_of_int n" "real_of_int n < 2 powi (bitlen n)"
proof -
  from bitlen_bounds [OF assms] have b: "1 \<le> bitlen n" "2 ^ nat (bitlen n - 1) \<le> n" "n < 2 ^ nat (bitlen n)"
    by simp_all
  have "real_of_int (2 ^ nat (bitlen n - 1)) \<le> real_of_int n" using b(2) by linarith
  then show "2 powi (bitlen n - 1) \<le> real_of_int n" using b(1) by (simp add: power_int_def)
  have "real_of_int n < real_of_int (2 ^ nat (bitlen n))" using b(3) by linarith
  then show "real_of_int n < 2 powi (bitlen n)" using b(1) by (simp add: power_int_def)
qed

lemma ilog2_test:
  assumes "0 < a" "0 < b"
  shows "(if 0 \<le> d then b * 2 ^ nat d \<le> a else b \<le> a * 2 ^ nat (- d)) \<longleftrightarrow>
         2 powi d \<le> real_of_int a / real_of_int b"
proof (cases "0 \<le> d")
  case True
  have "b * 2 ^ nat d \<le> a \<longleftrightarrow> real_of_int (b * 2 ^ nat d) \<le> real_of_int a" by linarith
  also have "\<dots> \<longleftrightarrow> 2 ^ nat d \<le> real_of_int a / real_of_int b"
    using assms by (simp add: field_simps)
  finally show ?thesis using True by (simp add: power_int_def)
next
  case False
  have "b \<le> a * 2 ^ nat (- d) \<longleftrightarrow> real_of_int b \<le> real_of_int (a * 2 ^ nat (- d))" by linarith
  also have "\<dots> \<longleftrightarrow> inverse (2 ^ nat (- d)) \<le> real_of_int a / real_of_int b"
    using assms by (simp add: field_simps)
  finally show ?thesis using False by (simp add: power_int_def power_one_over inverse_eq_divide)
qed

lemma ilog2_bounds:
  assumes "0 < a" "0 < b"
  shows "2 powi (ilog2 a b) \<le> real_of_int a / real_of_int b"
    and "real_of_int a / real_of_int b < 2 powi (ilog2 a b + 1)"
proof -
  let ?d = "bitlen a - bitlen b"
  let ?x = "real_of_int a / real_of_int b"
  have a: "2 powi (bitlen a - 1) \<le> real_of_int a" "real_of_int a < 2 powi (bitlen a)"
    using bitlen_real [OF assms(1)] by simp_all
  have b: "2 powi (bitlen b - 1) \<le> real_of_int b" "real_of_int b < 2 powi (bitlen b)"
    using bitlen_real [OF assms(2)] by simp_all
  have bpos: "0 < real_of_int b" using assms(2) by simp
  have up: "?x < 2 powi (?d + 1)"
  proof -
    have "real_of_int a < 2 powi (bitlen a)" by (rule a(2))
    also have "\<dots> = 2 powi (?d + 1) * 2 powi (bitlen b - 1)"
      by (simp add: power_int_add [symmetric])
    also have "\<dots> \<le> 2 powi (?d + 1) * real_of_int b"
      using b(1) by (intro mult_left_mono) simp_all
    finally show ?thesis using bpos by (simp add: field_simps)
  qed
  have lo: "2 powi (?d - 1) < ?x"
  proof -
    have "2 powi (?d - 1) * real_of_int b < 2 powi (?d - 1) * 2 powi (bitlen b)"
      using b(2) by (intro mult_strict_left_mono) simp_all
    also have "\<dots> = 2 powi (bitlen a - 1)"
      by (simp add: power_int_add [symmetric])
    also have "\<dots> \<le> real_of_int a" by (rule a(1))
    finally show ?thesis using bpos by (simp add: field_simps)
  qed
  have t: "ilog2 a b = (if 2 powi ?d \<le> ?x then ?d else ?d - 1)"
    by (simp only: ilog2_def Let_def ilog2_test [OF assms])
  show "2 powi (ilog2 a b) \<le> ?x"
  proof (cases "2 powi ?d \<le> ?x")
    case True
    then show ?thesis using t by simp
  next
    case False
    then have "ilog2 a b = ?d - 1" using t by simp
    then show ?thesis using lo by simp
  qed
  show "?x < 2 powi (ilog2 a b + 1)"
  proof (cases "2 powi ?d \<le> ?x")
    case True
    then have "ilog2 a b = ?d" using t by simp
    then show ?thesis using up by simp
  next
    case False
    then have "ilog2 a b = ?d - 1" using t by simp
    then show ?thesis using False by simp
  qed
qed

lemma rne_div_error:
  assumes "0 < b"
  shows "\<bar>real_of_int (rne_div a b) - real_of_int a / real_of_int b\<bar> \<le> 1 / 2"
proof -
  define q where "q = a div b"
  define r where "r = a mod b"
  have a: "a = q * b + r" by (simp add: q_def r_def)
  have r: "0 \<le> r" "r < b" using assms by (simp_all add: r_def)
  have x: "real_of_int a / real_of_int b = real_of_int q + real_of_int r / real_of_int b"
    using assms a by (simp add: field_simps)
  have bpos: "0 < real_of_int b" using assms by simp
  show ?thesis
  proof (cases "2 * r < b \<or> (2 * r = b \<and> even q)")
    case True
    then have res: "rne_div a b = q" by (simp add: rne_div_def q_def r_def Let_def)
    have "2 * real_of_int r \<le> real_of_int b" using True by linarith
    then have "real_of_int r / real_of_int b \<le> 1 / 2" using bpos by (simp add: field_simps)
    moreover have "0 \<le> real_of_int r / real_of_int b" using r(1) bpos by simp
    ultimately show ?thesis unfolding res x by simp
  next
    case False
    then have res: "rne_div a b = q + 1" by (simp add: rne_div_def q_def r_def Let_def)
    have "real_of_int b \<le> 2 * real_of_int r" using False by linarith
    then have "1 / 2 \<le> real_of_int r / real_of_int b" using bpos by (simp add: field_simps)
    moreover have "real_of_int r / real_of_int b < 1" using r(2) bpos by simp
    ultimately show ?thesis unfolding res x by simp
  qed
qed

lemma round_double_near:
  assumes "0 < a" "0 < b" "round_double s a b = Finite s' m' e'"
  shows "s' = s"
    and "\<bar>real_of_int m' * 2 powi e' - real_of_int a / real_of_int b\<bar>
           \<le> max (real_of_int a / real_of_int b * 2 powi (- 52)) (2 powi (- 1074)) / 2"
proof -
  let ?x = "real_of_int a / real_of_int b"
  define e0 where "e0 = max (ilog2 a b - 52) (- 1074)"
  define m where "m = (if 0 \<le> e0 then rne_div a (b * 2 ^ nat e0) else rne_div (a * 2 ^ nat (- e0)) b)"
  have rd: "round_double s a b =
      (if m = 2 ^ 53 then (if 971 < e0 + 1 then Infinity s else Finite s (2 ^ 52) (e0 + 1))
       else if 971 < e0 then Infinity s else Finite s m e0)"
    using assms(1) by (simp add: round_double_def Let_def e0_def m_def)
  have bpos: "0 < real_of_int b" using assms(2) by simp
  have m: "\<bar>real_of_int m - ?x / 2 powi e0\<bar> \<le> 1 / 2"
  proof (cases "0 \<le> e0")
    case True
    have pw: "(2::real) powi e0 = 2 ^ nat e0" using True by (simp add: power_int_def)
    have eq: "real_of_int a / real_of_int (b * 2 ^ nat e0) = ?x / 2 powi e0"
      unfolding pw by simp
    have "\<bar>real_of_int (rne_div a (b * 2 ^ nat e0)) - real_of_int a / real_of_int (b * 2 ^ nat e0)\<bar> \<le> 1 / 2"
      using assms(2) by (intro rne_div_error) simp
    then have "\<bar>real_of_int (rne_div a (b * 2 ^ nat e0)) - ?x / 2 powi e0\<bar> \<le> 1 / 2"
      by (simp only: eq)
    moreover have "m = rne_div a (b * 2 ^ nat e0)" using True by (simp add: m_def)
    ultimately show ?thesis by simp
  next
    case False
    have pw: "(2::real) powi e0 = 1 / 2 ^ nat (- e0)"
      using False by (simp add: power_int_def power_one_over inverse_eq_divide)
    have eq: "real_of_int (a * 2 ^ nat (- e0)) / real_of_int b = ?x / 2 powi e0"
      unfolding pw by simp
    have "\<bar>real_of_int (rne_div (a * 2 ^ nat (- e0)) b) - real_of_int (a * 2 ^ nat (- e0)) / real_of_int b\<bar> \<le> 1 / 2"
      using assms(2) by (intro rne_div_error)
    then have "\<bar>real_of_int (rne_div (a * 2 ^ nat (- e0)) b) - ?x / 2 powi e0\<bar> \<le> 1 / 2"
      by (simp only: eq)
    moreover have "m = rne_div (a * 2 ^ nat (- e0)) b" using False by (simp add: m_def)
    ultimately show ?thesis by simp
  qed
  have p: "0 < (2::real) powi e0" by simp
  have "\<bar>real_of_int m * 2 powi e0 - ?x\<bar> = 2 powi e0 * \<bar>real_of_int m - ?x / 2 powi e0\<bar>"
  proof -
    have "real_of_int m * 2 powi e0 - ?x = 2 powi e0 * (real_of_int m - ?x / 2 powi e0)"
      by (simp add: field_simps)
    then show ?thesis using p by (simp add: abs_mult)
  qed
  also have "\<dots> \<le> 2 powi e0 * (1 / 2)"
    using m p by (intro mult_left_mono) simp_all
  finally have near: "\<bar>real_of_int m * 2 powi e0 - ?x\<bar> \<le> 2 powi e0 / 2" by simp
  have u: "2 powi e0 \<le> max (?x * 2 powi (- 52)) (2 powi (- 1074))"
  proof (cases "ilog2 a b - 52 \<le> - 1074")
    case True
    then have "e0 = - 1074" by (simp add: e0_def)
    then show ?thesis by simp
  next
    case False
    then have "e0 = ilog2 a b + (- 52)" by (simp add: e0_def)
    then have "(2::real) powi e0 = 2 powi (ilog2 a b) * 2 powi (- 52)"
      by (metis power_int_add zero_neq_numeral)
    also have "\<dots> \<le> ?x * 2 powi (- 52)"
      using ilog2_bounds(1) [OF assms(1,2)] by (intro mult_right_mono) simp_all
    finally show ?thesis by simp
  qed
  have v: "s' = s \<and> real_of_int m' * 2 powi e' = real_of_int m * 2 powi e0"
  proof (cases "m = 2 ^ 53")
    case True
    then have "s' = s" "m' = 2 ^ 52" "e' = e0 + 1"
      using rd assms(3) by (simp_all split: if_splits)
    moreover have "(2::real) powi (e0 + 1) = 2 * 2 powi e0"
      by (simp add: power_int_add)
    ultimately show ?thesis using True by simp
  next
    case False
    then show ?thesis using rd assms(3) by (simp split: if_splits)
  qed
  show "s' = s" using v by simp
  show "\<bar>real_of_int m' * 2 powi e' - ?x\<bar> \<le> max (?x * 2 powi (- 52)) (2 powi (- 1074)) / 2"
    using v near u by simp
qed

lemma scaled_near:
  assumes "0 < m" "0 < b" "scaled s m k b = Finite s' m' e'"
  shows "s' = s"
    and "\<bar>real_of_int m' * 2 powi e' - real_of_int m * 2 powi k / real_of_int b\<bar>
           \<le> max (real_of_int m * 2 powi k / real_of_int b * 2 powi (- 52)) (2 powi (- 1074)) / 2"
proof -
  let ?x = "real_of_int m * 2 powi k / real_of_int b"
  have "s' = s \<and> \<bar>real_of_int m' * 2 powi e' - ?x\<bar> \<le> max (?x * 2 powi (- 52)) (2 powi (- 1074)) / 2"
  proof (cases "0 \<le> k")
    case True
    then have r: "round_double s (m * 2 ^ nat k) b = Finite s' m' e'"
      using assms(3) by (simp add: scaled_def)
    have pos: "0 < m * 2 ^ nat k" using assms(1) by simp
    have pw: "(2::real) powi k = 2 ^ nat k" using True by (simp add: power_int_def)
    have x: "real_of_int (m * 2 ^ nat k) / real_of_int b = ?x"
      unfolding pw by simp
    show ?thesis
      using round_double_near [OF pos assms(2) r] unfolding x by simp
  next
    case False
    then have r: "round_double s m (b * 2 ^ nat (- k)) = Finite s' m' e'"
      using assms(3) by (simp add: scaled_def)
    have pos: "0 < b * 2 ^ nat (- k)" using assms(2) by simp
    have pw: "(2::real) powi k = 1 / 2 ^ nat (- k)"
      using False by (simp add: power_int_def power_one_over inverse_eq_divide)
    have x: "real_of_int m / real_of_int (b * 2 ^ nat (- k)) = ?x"
      unfolding pw by simp
    show ?thesis
      using round_double_near [OF assms(1) pos r] unfolding x by simp
  qed
  then show "s' = s"
    and "\<bar>real_of_int m' * 2 powi e' - ?x\<bar> \<le> max (?x * 2 powi (- 52)) (2 powi (- 1074)) / 2"
    by simp_all
qed

lemma valof_Finite: "valof (Finite s m e) = real_of_int (signed s m) * 2 powi e"
  by (simp add: valof_def signed_def)

lemma powi_split:
  assumes "k \<le> e"
  shows "(2::real) powi e = 2 ^ nat (e - k) * 2 powi k"
proof -
  have "(2::real) powi e = 2 powi ((e - k) + k)" by simp
  also have "\<dots> = 2 powi (e - k) * 2 powi k" by (metis power_int_add zero_neq_numeral)
  also have "(2::real) powi (e - k) = 2 ^ nat (e - k)" using assms by (simp add: power_int_def)
  finally show ?thesis .
qed

lemma float_lt_valof:
  "float_lt (Finite s m e) (Finite t n f) \<longleftrightarrow> valof (Finite s m e) < valof (Finite t n f)"
proof -
  define k where "k = min e f"
  have k: "k \<le> e" "k \<le> f" by (simp_all add: k_def)
  have p: "0 < (2::real) powi k" by simp
  have "valof (Finite s m e) < valof (Finite t n f) \<longleftrightarrow>
      real_of_int (signed s m * 2 ^ nat (e - k)) * 2 powi k < real_of_int (signed t n * 2 ^ nat (f - k)) * 2 powi k"
    by (simp add: valof_Finite powi_split [OF k(1)] powi_split [OF k(2)] mult.assoc)
  also have "\<dots> \<longleftrightarrow> real_of_int (signed s m * 2 ^ nat (e - k)) < real_of_int (signed t n * 2 ^ nat (f - k))"
    using p by (rule mult_less_cancel_right_pos)
  also have "\<dots> \<longleftrightarrow> signed s m * 2 ^ nat (e - k) < signed t n * 2 ^ nat (f - k)"
    by linarith
  finally show ?thesis by (simp add: k_def)
qed

lemma valid_bound:
  assumes "valid (Finite s n f)"
  shows "real_of_int n * 2 powi f < 2 powi 1024"
proof -
  from assms have n: "n < 2 ^ 53" "0 \<le> n" and f: "f \<le> 971"
    by (auto simp: valid_def)
  have "real_of_int n * 2 powi f \<le> real_of_int n * 2 powi 971"
    using f n(2) by (intro mult_left_mono power_int_increasing) simp_all
  also have "\<dots> < 2 ^ 53 * 2 powi 971"
  proof -
    have "real_of_int n < real_of_int (2 ^ 53)" using n(1) by linarith
    then show ?thesis by simp
  qed
  also have "\<dots> = 2 powi 1024" by simp
  finally show ?thesis .
qed

lemma is_finite_Finite: "is_finite x \<Longrightarrow> \<exists>s m e. x = Finite s m e"
  by (cases x) (simp_all add: is_finite_def)

lemma fquot_Finite: "n \<noteq> 0 \<Longrightarrow> fquot (Finite False m e) (Finite False n f) = scaled False m (e - f) n"
  by (simp add: fquot_def)

text \<open>
  Quotients by one positive divisor keep the strict order of two positive dividends
  that lie far enough apart, unless a quotient overflows.
\<close>

lemma fquot_strict_mono:
  assumes mu: "valid (Finite False n f)" "0 < n"
    and l: "0 < m1" "0 < m2"
    and gapA: "real_of_int m2 * 2 powi e2 * 2 powi (- 52) < real_of_int m2 * 2 powi e2 - real_of_int m1 * 2 powi e1"
    and gapB: "2 powi (- 50) < real_of_int m2 * 2 powi e2 - real_of_int m1 * 2 powi e1"
    and fin: "is_finite (fquot (Finite False m1 e1) (Finite False n f))"
             "is_finite (fquot (Finite False m2 e2) (Finite False n f))"
  shows "float_lt (fquot (Finite False m1 e1) (Finite False n f)) (fquot (Finite False m2 e2) (Finite False n f))"
proof -
  define L1 where "L1 = real_of_int m1 * 2 powi e1"
  define L2 where "L2 = real_of_int m2 * 2 powi e2"
  define M where "M = real_of_int n * 2 powi f"
  define x1 where "x1 = real_of_int m1 * 2 powi (e1 - f) / real_of_int n"
  define x2 where "x2 = real_of_int m2 * 2 powi (e2 - f) / real_of_int n"
  define U where "U = max (x2 * 2 powi (- 52)) (2 powi (- 1074))"
  have npos: "0 < real_of_int n" using mu(2) by simp
  have Mpos: "0 < M" using npos by (simp add: M_def)
  have Mlt: "M < 2 powi 1024" using valid_bound [OF mu(1)] by (simp add: M_def)
  have x1: "x1 = L1 / M" by (simp add: x1_def L1_def M_def power_int_diff)
  have x2: "x2 = L2 / M" by (simp add: x2_def L2_def M_def power_int_diff)
  have L: "0 < L1" "0 < L2" using l by (simp_all add: L1_def L2_def)
  have gA: "L2 * 2 powi (- 52) < L2 - L1" using gapA by (simp add: L1_def L2_def)
  have gB: "2 powi (- 50) < L2 - L1" using gapB by (simp add: L1_def L2_def)
  have x12: "x1 < x2" "0 < x1"
    using gB L Mpos by (simp_all add: x1 x2 divide_strict_right_mono)
  have dA: "x2 * 2 powi (- 52) < x2 - x1"
  proof -
    have "L2 * 2 powi (- 52) / M < (L2 - L1) / M"
      using gA Mpos by (rule divide_strict_right_mono)
    then show ?thesis by (simp add: x1 x2 diff_divide_distrib)
  qed
  have dB: "2 powi (- 1074) < x2 - x1"
  proof -
    have "(2::real) powi (- 1074) = 2 powi (- 50) / 2 powi 1024" by simp
    also have "\<dots> < 2 powi (- 50) / M"
      using Mlt Mpos by (intro divide_strict_left_mono) simp_all
    also have "\<dots> < (L2 - L1) / M"
      using gB Mpos by (rule divide_strict_right_mono)
    finally show ?thesis by (simp add: x1 x2 diff_divide_distrib)
  qed
  have dU: "U < x2 - x1" using dA dB by (simp add: U_def)
  from is_finite_Finite [OF fin(1)] obtain s1 k1 g1 where
    r1: "fquot (Finite False m1 e1) (Finite False n f) = Finite s1 k1 g1" by blast
  from is_finite_Finite [OF fin(2)] obtain s2 k2 g2 where
    r2: "fquot (Finite False m2 e2) (Finite False n f) = Finite s2 k2 g2" by blast
  have q1: "scaled False m1 (e1 - f) n = Finite s1 k1 g1"
    using r1 mu(2) by (simp add: fquot_Finite)
  have q2: "scaled False m2 (e2 - f) n = Finite s2 k2 g2"
    using r2 mu(2) by (simp add: fquot_Finite)
  have n1: "s1 = False" "\<bar>real_of_int k1 * 2 powi g1 - x1\<bar> \<le> max (x1 * 2 powi (- 52)) (2 powi (- 1074)) / 2"
    using scaled_near [OF l(1) mu(2) q1] by (simp_all add: x1_def)
  have n2: "s2 = False" "\<bar>real_of_int k2 * 2 powi g2 - x2\<bar> \<le> U / 2"
    using scaled_near [OF l(2) mu(2) q2] by (simp_all add: x2_def U_def)
  have "max (x1 * 2 powi (- 52)) (2 powi (- 1074)) \<le> U"
  proof -
    have "x1 * 2 powi (- 52) \<le> x2 * 2 powi (- 52)"
      using x12(1) by (intro mult_right_mono) simp_all
    then show ?thesis by (auto simp: U_def)
  qed
  then have n1': "\<bar>real_of_int k1 * 2 powi g1 - x1\<bar> \<le> U / 2" using n1(2) by linarith
  have "real_of_int k1 * 2 powi g1 < real_of_int k2 * 2 powi g2"
    using n1' n2(2) dU by linarith
  then have "valof (Finite False k1 g1) < valof (Finite False k2 g2)"
    by (simp add: valof_Finite signed_def)
  then show ?thesis
    unfolding r1 r2 n1(1) n2(1) by (simp only: float_lt_valof)
qed

lemma gap_ok_real:
  assumes "gap_ok (Finite s m e) (Finite t n f)"
  shows "\<not> s" "\<not> t" "0 < m" "0 < n"
    and "real_of_int n * 2 powi f * 2 powi (- 52) < real_of_int n * 2 powi f - real_of_int m * 2 powi e"
    and "2 powi (- 50) < real_of_int n * 2 powi f - real_of_int m * 2 powi e"
proof -
  define k where "k = min e f"
  define a where "a = m * 2 ^ nat (e - k)"
  define b where "b = n * 2 ^ nat (f - k)"
  have k: "k \<le> e" "k \<le> f" by (simp_all add: k_def)
  from assms have g: "\<not> s" "\<not> t" "0 < m" "0 < n" "k < - 50" "b < (b - a) * 2 ^ 52" "2 ^ nat (- 50 - k) < b - a"
    by (simp_all add: gap_ok_def Let_def k_def a_def b_def)
  show "\<not> s" "\<not> t" "0 < m" "0 < n" using g by simp_all
  have p: "0 < (2::real) powi k" by simp
  have L1: "real_of_int m * 2 powi e = real_of_int a * 2 powi k"
    by (simp add: a_def powi_split [OF k(1)])
  have L2: "real_of_int n * 2 powi f = real_of_int b * 2 powi k"
    by (simp add: b_def powi_split [OF k(2)])
  have "real_of_int b < real_of_int ((b - a) * 2 ^ 52)" using g(6) by linarith
  then have "real_of_int b * 2 powi (- 52) < real_of_int (b - a)" by (simp add: field_simps)
  then have "real_of_int b * 2 powi (- 52) * 2 powi k < real_of_int (b - a) * 2 powi k"
    using p by (rule mult_strict_right_mono)
  then show "real_of_int n * 2 powi f * 2 powi (- 52) < real_of_int n * 2 powi f - real_of_int m * 2 powi e"
    unfolding L1 L2 by (simp add: algebra_simps)
  have "real_of_int (2 ^ nat (- 50 - k)) < real_of_int (b - a)" using g(7) by linarith
  then have "2 ^ nat (- 50 - k) * 2 powi k < real_of_int (b - a) * 2 powi k"
    using p by (intro mult_strict_right_mono) simp_all
  moreover have "(2::real) powi (- 50) = 2 ^ nat (- 50 - k) * 2 powi k"
    using g(5) by (intro powi_split) simp
  ultimately show "2 powi (- 50) < real_of_int n * 2 powi f - real_of_int m * 2 powi e"
    unfolding L1 L2 by (simp add: algebra_simps)
qed

lemma gap_ok_Finite: "gap_ok x y \<Longrightarrow> \<exists>m e n f. x = Finite False m e \<and> y = Finite False n f"
  by (cases x; cases y) (auto simp: gap_ok_def Let_def)

lemma near_fraction_real:
  assumes "near_fraction d k x"
  shows "\<bar>valof x - real_of_int k / real_of_int d\<bar> \<le> real_of_int k / real_of_int d * 2 powi (- 51)"
proof -
  from assms obtain m e where x: "x = Finite False m e" and e: "e < 0" and k: "0 < k" and d: "0 < d"
    and b: "\<bar>m * d - k * 2 ^ nat (- e)\<bar> * 2 ^ 51 \<le> k * 2 ^ nat (- e)"
    by (cases x) (auto simp: near_fraction_def)
  define P :: real where "P = 2 ^ nat (- e)"
  define D :: real where "D = real_of_int d"
  have P: "0 < P" by (simp add: P_def)
  have D: "0 < D" using d by (simp add: D_def)
  have pw: "(2::real) powi e = 1 / P"
    using e by (simp add: P_def power_int_def power_one_over inverse_eq_divide)
  have "real_of_int (\<bar>m * d - k * 2 ^ nat (- e)\<bar> * 2 ^ 51) \<le> real_of_int (k * 2 ^ nat (- e))"
    using b by linarith
  then have r: "\<bar>real_of_int m * D - real_of_int k * P\<bar> * 2 ^ 51 \<le> real_of_int k * P"
    by (simp add: P_def D_def)
  have "valof x - real_of_int k / D = (real_of_int m * D - real_of_int k * P) / (D * P)"
    using P D by (simp add: x valof_def pw field_simps)
  then have "\<bar>valof x - real_of_int k / D\<bar> = \<bar>real_of_int m * D - real_of_int k * P\<bar> / (D * P)"
    using P D by (simp add: abs_divide)
  also have "\<dots> \<le> (real_of_int k * P / 2 ^ 51) / (D * P)"
    using r P D by (intro divide_right_mono) (simp_all add: field_simps)
  also have "\<dots> = real_of_int k / D * 2 powi (- 51)"
    using P D by (simp add: field_simps)
  finally show ?thesis by (simp add: D_def)
qed

text \<open>A quotient of \<open>2 ^ 1024\<close> or more rounds to an infinity.\<close>

lemma round_double_overflow:
  assumes "0 < b" "2 ^ 1024 * b \<le> a"
  shows "round_double s a b = Infinity s"
proof -
  have "0 < 2 ^ 1024 * b" using assms(1) by simp
  then have a: "0 < a" using assms(2) by linarith
  let ?x = "real_of_int a / real_of_int b"
  have "real_of_int (2 ^ 1024 * b) \<le> real_of_int a" using assms(2) by linarith
  then have "2 powi 1024 \<le> ?x" using assms(1) by (simp add: field_simps)
  also have "?x < 2 powi (ilog2 a b + 1)" by (rule ilog2_bounds(2) [OF a assms(1)])
  finally have lt: "(2::real) powi 1024 < 2 powi (ilog2 a b + 1)" .
  have "(1024::int) < ilog2 a b + 1"
  proof (rule ccontr)
    assume "\<not> (1024::int) < ilog2 a b + 1"
    then have "ilog2 a b + 1 \<le> 1024" by simp
    then have "(2::real) powi (ilog2 a b + 1) \<le> 2 powi 1024"
      by (intro power_int_increasing) simp_all
    then show False using lt by simp
  qed
  then have e: "max (ilog2 a b - 52) (- 1074) = ilog2 a b - 52" "971 < ilog2 a b - 52" by simp_all
  show ?thesis
    using a e(2) unfolding round_double_def Let_def e(1) by simp
qed

subsection \<open>The values of the arrival rates and of the loads for 0.1\<close>

lemma lambdas_eval: "lambdas =
    [Finite False 4611686018427388 (- 62),
     Finite False 4611686018427388 (- 61),
     Finite False 6917529027641082 (- 61),
     Finite False 4611686018427388 (- 60),
     Finite False 5764607523034235 (- 60),
     Finite False 6917529027641082 (- 60),
     Finite False 8070450532247929 (- 60),
     Finite False 4611686018427388 (- 59),
     Finite False 5188146770730812 (- 59),
     Finite False 5764607523034235 (- 59),
     Finite False 6341068275337658 (- 59),
     Finite False 6917529027641082 (- 59),
     Finite False 7493989779944506 (- 59),
     Finite False 8070450532247929 (- 59),
     Finite False 8646911284551352 (- 59),
     Finite False 4611686018427388 (- 58),
     Finite False 4899916394579100 (- 58),
     Finite False 5188146770730812 (- 58),
     Finite False 5476377146882523 (- 58),
     Finite False 5764607523034235 (- 58),
     Finite False 6052837899185947 (- 58),
     Finite False 6341068275337658 (- 58),
     Finite False 6629298651489370 (- 58),
     Finite False 6917529027641082 (- 58),
     Finite False 7205759403792794 (- 58),
     Finite False 7493989779944506 (- 58),
     Finite False 7782220156096217 (- 58),
     Finite False 8070450532247929 (- 58),
     Finite False 8358680908399641 (- 58),
     Finite False 8646911284551352 (- 58),
     Finite False 8935141660703064 (- 58),
     Finite False 4611686018427388 (- 57),
     Finite False 4755801206503244 (- 57),
     Finite False 4899916394579100 (- 57),
     Finite False 5044031582654956 (- 57),
     Finite False 5188146770730812 (- 57),
     Finite False 5332261958806667 (- 57),
     Finite False 5476377146882523 (- 57),
     Finite False 5620492334958379 (- 57),
     Finite False 5764607523034235 (- 57),
     Finite False 5908722711110091 (- 57),
     Finite False 6052837899185947 (- 57),
     Finite False 6196953087261803 (- 57),
     Finite False 6341068275337658 (- 57),
     Finite False 6485183463413514 (- 57),
     Finite False 6629298651489370 (- 57),
     Finite False 6773413839565226 (- 57),
     Finite False 6917529027641082 (- 57),
     Finite False 7061644215716938 (- 57),
     Finite False 7205759403792794 (- 57),
     Finite False 7349874591868650 (- 57),
     Finite False 7493989779944506 (- 57),
     Finite False 7638104968020361 (- 57),
     Finite False 7782220156096217 (- 57),
     Finite False 7926335344172073 (- 57),
     Finite False 8070450532247929 (- 57),
     Finite False 8214565720323785 (- 57),
     Finite False 8358680908399641 (- 57),
     Finite False 8502796096475497 (- 57),
     Finite False 8646911284551352 (- 57),
     Finite False 8791026472627208 (- 57),
     Finite False 8935141660703064 (- 57),
     Finite False 4539628424389460 (- 56),
     Finite False 4611686018427388 (- 56),
     Finite False 4683743612465316 (- 56),
     Finite False 4755801206503244 (- 56),
     Finite False 4827858800541172 (- 56),
     Finite False 4899916394579100 (- 56),
     Finite False 4971973988617028 (- 56),
     Finite False 5044031582654956 (- 56),
     Finite False 5116089176692884 (- 56),
     Finite False 5188146770730812 (- 56),
     Finite False 5260204364768739 (- 56),
     Finite False 5332261958806667 (- 56),
     Finite False 5404319552844595 (- 56),
     Finite False 5476377146882523 (- 56),
     Finite False 5548434740920451 (- 56),
     Finite False 5620492334958379 (- 56),
     Finite False 5692549928996307 (- 56),
     Finite False 5764607523034235 (- 56),
     Finite False 5836665117072163 (- 56),
     Finite False 5908722711110091 (- 56),
     Finite False 5980780305148019 (- 56),
     Finite False 6052837899185947 (- 56),
     Finite False 6124895493223875 (- 56),
     Finite False 6196953087261803 (- 56),
     Finite False 6269010681299731 (- 56),
     Finite False 6341068275337658 (- 56),
     Finite False 6413125869375586 (- 56),
     Finite False 6485183463413514 (- 56),
     Finite False 6557241057451442 (- 56),
     Finite False 6629298651489370 (- 56),
     Finite False 6701356245527298 (- 56),
     Finite False 6773413839565226 (- 56),
     Finite False 6845471433603154 (- 56),
     Finite False 6917529027641082 (- 56),
     Finite False 6989586621679010 (- 56),
     Finite False 7061644215716938 (- 56),
     Finite False 7133701809754866 (- 56),
     Finite False 7205759403792794 (- 56)]"
  by code_simp

lemma loads_0_1_eval: "loads mu_0_1 =
    [Finite False 5764607523034235 (- 59),
     Finite False 5764607523034235 (- 58),
     Finite False 8646911284551352 (- 58),
     Finite False 5764607523034235 (- 57),
     Finite False 7205759403792793 (- 57),
     Finite False 8646911284551352 (- 57),
     Finite False 5044031582654955 (- 56),
     Finite False 5764607523034235 (- 56),
     Finite False 6485183463413515 (- 56),
     Finite False 7205759403792793 (- 56),
     Finite False 7926335344172072 (- 56),
     Finite False 8646911284551352 (- 56),
     Finite False 4683743612465316 (- 55),
     Finite False 5044031582654955 (- 55),
     Finite False 5404319552844595 (- 55),
     Finite False 5764607523034235 (- 55),
     Finite False 6124895493223875 (- 55),
     Finite False 6485183463413515 (- 55),
     Finite False 6845471433603153 (- 55),
     Finite False 7205759403792793 (- 55),
     Finite False 7566047373982433 (- 55),
     Finite False 7926335344172072 (- 55),
     Finite False 8286623314361712 (- 55),
     Finite False 8646911284551352 (- 55),
     Finite False 4503599627370496 (- 54),
     Finite False 4683743612465316 (- 54),
     Finite False 4863887597560135 (- 54),
     Finite False 5044031582654955 (- 54),
     Finite False 5224175567749775 (- 54),
     Finite False 5404319552844595 (- 54),
     Finite False 5584463537939415 (- 54),
     Finite False 5764607523034235 (- 54),
     Finite False 5944751508129055 (- 54),
     Finite False 6124895493223875 (- 54),
     Finite False 6305039478318695 (- 54),
     Finite False 6485183463413515 (- 54),
     Finite False 6665327448508333 (- 54),
     Finite False 6845471433603153 (- 54),
     Finite False 7025615418697973 (- 54),
     Finite False 7205759403792793 (- 54),
     Finite False 7385903388887613 (- 54),
     Finite False 7566047373982433 (- 54),
     Finite False 7746191359077253 (- 54),
     Finite False 7926335344172072 (- 54),
     Finite False 8106479329266892 (- 54),
     Finite False 8286623314361712 (- 54),
     Finite False 8466767299456532 (- 54),
     Finite False 8646911284551352 (- 54),
     Finite False 8827055269646172 (- 54),
     Finite False 4503599627370496 (- 53),
     Finite False 4593671619917906 (- 53),
     Finite False 4683743612465316 (- 53),
     Finite False 4773815605012725 (- 53),
     Finite False 4863887597560135 (- 53),
     Finite False 4953959590107545 (- 53),
     Finite False 5044031582654955 (- 53),
     Finite False 5134103575202365 (- 53),
     Finite False 5224175567749775 (- 53),
     Finite False 5314247560297185 (- 53),
     Finite False 5404319552844595 (- 53),
     Finite False 5494391545392005 (- 53),
     Finite False 5584463537939415 (- 53),
     Finite False 5674535530486825 (- 53),
     Finite False 5764607523034235 (- 53),
     Finite False 5854679515581645 (- 53),
     Finite False 5944751508129055 (- 53),
     Finite False 6034823500676465 (- 53),
     Finite False 6124895493223875 (- 53),
     Finite False 6214967485771285 (- 53),
     Finite False 6305039478318695 (- 53),
     Finite False 6395111470866105 (- 53),
     Finite False 6485183463413515 (- 53),
     Finite False 6575255455960923 (- 53),
     Finite False 6665327448508333 (- 53),
     Finite False 6755399441055743 (- 53),
     Finite False 6845471433603153 (- 53),
     Finite False 6935543426150563 (- 53),
     Finite False 7025615418697973 (- 53),
     Finite False 7115687411245383 (- 53),
     Finite False 7205759403792793 (- 53),
     Finite False 7295831396340203 (- 53),
     Finite False 7385903388887613 (- 53),
     Finite False 7475975381435023 (- 53),
     Finite False 7566047373982433 (- 53),
     Finite False 7656119366529843 (- 53),
     Finite False 7746191359077253 (- 53),
     Finite False 7836263351624663 (- 53),
     Finite False 7926335344172072 (- 53),
     Finite False 8016407336719482 (- 53),
     Finite False 8106479329266892 (- 53),
     Finite False 8196551321814302 (- 53),
     Finite False 8286623314361712 (- 53),
     Finite False 8376695306909122 (- 53),
     Finite False 8466767299456532 (- 53),
     Finite False 8556839292003942 (- 53),
     Finite False 8646911284551352 (- 53),
     Finite False 8736983277098762 (- 53),
     Finite False 8827055269646172 (- 53),
     Finite False 8917127262193582 (- 53),
     Finite False 4503599627370496 (- 52)]"
  by code_simp

lemma lambdas_grid: "list_all2 (near_fraction 1000) [1..100] lambdas"
  unfolding lambdas_eval by code_simp

lemma loads_0_1_grid: "list_all2 (near_fraction 100) [1..100] (loads mu_0_1)"
  unfolding loads_0_1_eval by code_simp

lemma loads_0_1_finite: "list_all is_finite (loads mu_0_1)"
  unfolding loads_0_1_eval by code_simp

lemma loads_0_1_ends: "loads mu_0_1 ! 0 = decimal False 1 (- 2)" "loads mu_0_1 ! 99 = float_of_int 1"
  unfolding loads_0_1_eval by code_simp+

lemma unequal_steps:
  "valof (loads mu_0_1 ! 1) - valof (loads mu_0_1 ! 0) \<noteq> valof (loads mu_0_1 ! 2) - valof (loads mu_0_1 ! 1)"
  unfolding loads_0_1_eval by (simp add: valof_def)

lemma lambdas_sorted: "sorted_wrt float_lt lambdas"
  unfolding lambdas_eval by code_simp

lemma lambdas_gaps: "sorted_wrt gap_ok lambdas"
  unfolding lambdas_eval by code_simp

lemma mu_0_1_form: "mu_0_1 = Finite False 7205759403792794 (- 56)"
  by code_simp

lemma mu_tiny_form: "mu_tiny = Finite False 1 (- 1074)"
  by code_simp

lemma loads_nth: "i < 100 \<Longrightarrow> loads mu ! i = fquot (lambdas ! i) mu"
  by (simp add: loads_def length_lambdas)

lemma lambdas_01: "lambdas ! 0 = Finite False 4611686018427388 (- 62)"
  "lambdas ! Suc 0 = Finite False 4611686018427388 (- 61)"
  by code_simp+

lemma loads_tiny: "loads mu_tiny ! 0 = Infinity False" "loads mu_tiny ! 1 = Infinity False"
  by (simp_all add: loads_nth lambdas_01 mu_tiny_form fquot_def scaled_def round_double_overflow)

text \<open>The loads for a positive service rate increase strictly, unless one overflows.\<close>

lemma loads_increasing:
  assumes "valid (Finite False n f)" "0 < n"
    and "\<forall>i<100. is_finite (loads (Finite False n f) ! i)"
    and "i < j" "j < 100"
  shows "float_lt (loads (Finite False n f) ! i) (loads (Finite False n f) ! j)"
proof -
  have g: "gap_ok (lambdas ! i) (lambdas ! j)"
    using lambdas_gaps assms(4,5) by (simp add: sorted_wrt_iff_nth_less length_lambdas)
  from gap_ok_Finite [OF g] obtain m1 e1 m2 e2 where
    l: "lambdas ! i = Finite False m1 e1" "lambdas ! j = Finite False m2 e2" by blast
  have ld: "loads (Finite False n f) ! i = fquot (Finite False m1 e1) (Finite False n f)"
    "loads (Finite False n f) ! j = fquot (Finite False m2 e2) (Finite False n f)"
    using assms(4,5) l by (simp_all add: loads_def length_lambdas)
  have fin: "is_finite (fquot (Finite False m1 e1) (Finite False n f))"
    "is_finite (fquot (Finite False m2 e2) (Finite False n f))"
    using assms(3) [rule_format, of i] assms(3) [rule_format, of j] assms(4,5) ld by simp_all
  have gr: "gap_ok (Finite False m1 e1) (Finite False m2 e2)" using g l by simp
  show ?thesis
    unfolding ld
    using fquot_strict_mono [OF assms(1,2) gap_ok_real(3) [OF gr] gap_ok_real(4) [OF gr]
        gap_ok_real(5) [OF gr] gap_ok_real(6) [OF gr] fin] .
qed

subsection \<open>The arrival rates\<close>

lemma lambdas_nth: "i < 100 \<Longrightarrow> lambdas ! i = fmul (float_of_int (int i + 1)) lit_0_001"
  by (simp add: lambdas_def)

text \<open>
  C5. The list of the arrival rates has 100 elements. Element \<open>i\<close> (from 0) is the
  product \<^verbatim>\<open>(i + 1)*0.001\<close> of Python floats, with \<^verbatim>\<open>0.001\<close> the float nearest to
  1/1000; it lies within \<open>2\<^sup>-\<^sup>5\<^sup>1\<close>, relatively, of \<open>(i + 1) / 1000\<close>. The
  elements increase strictly: each is less than every later one.
\<close>

theorem arrival_rates:
  "length lambdas = 100 \<and> lit_0_001 = decimal False 1 (- 3) \<and>
   (\<forall>i<100. lambdas ! i = fmul (float_of_int (int i + 1)) lit_0_001 \<and>
      \<bar>valof (lambdas ! i) - (real i + 1) / 1000\<bar> \<le> (real i + 1) / 1000 * 2 powi (- 51)) \<and>
   (\<forall>i j. i < j \<and> j < 100 \<longrightarrow> float_lt (lambdas ! i) (lambdas ! j))"
proof (intro conjI allI impI)
  show "length lambdas = 100" by (rule length_lambdas)
  show "lit_0_001 = decimal False 1 (- 3)" by (rule lit_0_001_def)
  show "lambdas ! i = fmul (float_of_int (int i + 1)) lit_0_001" if "i < 100" for i
    using that by (rule lambdas_nth)
  show "\<bar>valof (lambdas ! i) - (real i + 1) / 1000\<bar> \<le> (real i + 1) / 1000 * 2 powi (- 51)"
    if "i < 100" for i
  proof -
    have "near_fraction 1000 ([1..100] ! i) (lambdas ! i)"
      using list_all2_nthD2 [OF lambdas_grid, of i] that by (simp add: length_lambdas)
    moreover have "[1..100] ! i = 1 + int i" using that by simp
    ultimately have "near_fraction 1000 (1 + int i) (lambdas ! i)" by simp
    from near_fraction_real [OF this] show ?thesis by (simp add: add.commute)
  qed
  show "float_lt (lambdas ! i) (lambdas ! j)" if "i < j \<and> j < 100" for i j
    using that lambdas_sorted by (simp add: sorted_wrt_iff_nth_less length_lambdas)
qed

theorem arrival_rates_witness:
  "lambdas ! 8 = fmul (float_of_int (int 8 + 1)) lit_0_001 \<and>
   \<bar>valof (lambdas ! 8) - (real 8 + 1) / 1000\<bar> \<le> (real 8 + 1) / 1000 * 2 powi (- 51) \<and>
   float_lt (lambdas ! 8) (lambdas ! 9)"
proof -
  have a: "(8::nat) < 100" and b: "(8::nat) < 9 \<and> (9::nat) < 100" by simp_all
  note t = arrival_rates
  from t have "\<forall>i<100. lambdas ! i = fmul (float_of_int (int i + 1)) lit_0_001 \<and>
      \<bar>valof (lambdas ! i) - (real i + 1) / 1000\<bar> \<le> (real i + 1) / 1000 * 2 powi (- 51)"
    by (rule conjunct1 [OF conjunct2 [OF conjunct2]])
  from this [rule_format, OF a] have 1: "lambdas ! 8 = fmul (float_of_int (int 8 + 1)) lit_0_001 \<and>
      \<bar>valof (lambdas ! 8) - (real 8 + 1) / 1000\<bar> \<le> (real 8 + 1) / 1000 * 2 powi (- 51)" .
  from t have "\<forall>i j. i < j \<and> j < 100 \<longrightarrow> float_lt (lambdas ! i) (lambdas ! j)"
    by (rule conjunct2 [OF conjunct2 [OF conjunct2]])
  from this [rule_format, OF b] have 2: "float_lt (lambdas ! 8) (lambdas ! 9)" .
  from 1 2 show ?thesis by (intro conjI) (rule conjunct1, assumption, rule conjunct2, assumption)
qed

subsection \<open>The curve of a sweep\<close>

lemma sweep_all_ok:
  assumes "\<not> is_zero mu" and "length ps = 100"
    and "\<And>i. i < 100 \<Longrightarrow> \<exists>out. sim (calls @ map (command mu) (take i lambdas)) (command mu (lambdas ! i)) = Exited 0 out \<and>
              parse_metric (bytes_str out) = Inr (ps ! i)"
  shows "process sim calls mu = (Inr (loads mu, ps), calls @ map (command mu) lambdas)"
proof -
  have A: "length (loads mu) = length lambdas" by (simp add: loads_def)
  have B: "length ps = length lambdas" using assms(2) by (simp add: length_lambdas)
  have C: "fdiv (lambdas ! i) mu = Inr (loads mu ! i) \<and>
       (\<exists>out. sim (calls @ map (command mu) (take i lambdas)) (command mu (lambdas ! i)) = Exited 0 out \<and>
              parse_metric (bytes_str out) = Inr (ps ! i))" if "i < length lambdas" for i
    using that assms(1) assms(3) [of i] by (simp add: length_lambdas loads_def fdiv_quotient)
  show ?thesis
    using sweep_ok [OF A B C, of "([], [])"] by (simp add: process_sweep)
qed

text \<open>
  C7, as amended: when all 100 runs exit with status 0, each output parses and \<open>mu\<close>
  is not zero, \<^verbatim>\<open>process\<close> returns one pair of lists of 100 elements each, with
  one sample for each run in the order of the sweep: the load number \<open>i\<close> is the
  quotient of the arrival rate number \<open>i\<close> by \<open>mu\<close>, the performance number \<open>i\<close>
  is the metric parsed from the output of run number \<open>i\<close>, and the arrival rates
  increase strictly along the sweep.
\<close>

theorem successful_sweep_curve:
  assumes "\<not> is_zero mu" and "length ps = 100"
    and "\<forall>i<100. \<exists>out. sim (calls @ map (command mu) (take i lambdas)) (command mu (lambdas ! i)) = Exited 0 out \<and>
              parse_metric (bytes_str out) = Inr (ps ! i)"
  shows "process sim calls mu = (Inr (loads mu, ps), calls @ map (command mu) lambdas) \<and>
         length (loads mu) = 100 \<and>
         (\<forall>i<100. fdiv (lambdas ! i) mu = Inr (loads mu ! i)) \<and>
         (\<forall>i j. i < j \<and> j < 100 \<longrightarrow> float_lt (lambdas ! i) (lambdas ! j))"
proof (intro conjI allI impI)
  show "process sim calls mu = (Inr (loads mu, ps), calls @ map (command mu) lambdas)"
    using assms by (intro sweep_all_ok) auto
  show "length (loads mu) = 100" by (simp add: loads_def length_lambdas)
  show "fdiv (lambdas ! i) mu = Inr (loads mu ! i)" if "i < 100" for i
    using that assms(1) by (simp add: loads_def length_lambdas fdiv_quotient)
  show "float_lt (lambdas ! i) (lambdas ! j)" if "i < j \<and> j < 100" for i j
    using that lambdas_sorted by (simp add: sorted_wrt_iff_nth_less length_lambdas)
qed

lemma process_sim_except_ok:
  assumes "100 \<le> n" "\<not> is_zero mu"
  shows "process (sim_except n r) [] mu = (Inr (loads mu, replicate 100 f_1_5), map (command mu) lambdas)"
proof -
  have "sweep (sim_except n r) mu ([], []) [] (take 100 lambdas) =
     (Inr (map (\<lambda>l. fquot l mu) (take 100 lambdas), replicate 100 f_1_5),
      map (command mu) (take 100 lambdas))"
    using assms by (intro sweep_sim_except) auto
  then show ?thesis by (simp add: process_sweep length_lambdas loads_def)
qed

theorem successful_sweep_curve_witness:
  "\<not> is_zero mu_0_1 \<and> length (replicate 100 f_1_5) = 100 \<and>
   process (sim_except 100 CannotStart) [] mu_0_1 =
     (Inr (loads mu_0_1, replicate 100 f_1_5), [] @ map (command mu_0_1) lambdas) \<and>
   length (loads mu_0_1) = 100 \<and>
   fdiv (lambdas ! 4) mu_0_1 = Inr (loads mu_0_1 ! 4) \<and>
   float_lt (lambdas ! 4) (lambdas ! 5)"
proof -
  have h1: "\<not> is_zero mu_0_1" by (rule mu_0_1_nonzero)
  have h2: "length (replicate 100 f_1_5) = 100" by simp
  have h3: "\<forall>i<100. \<exists>out. sim_except 100 CannotStart ([] @ map (command mu_0_1) (take i lambdas)) (command mu_0_1 (lambdas ! i)) = Exited 0 out \<and>
              parse_metric (bytes_str out) = Inr (replicate 100 f_1_5 ! i)"
    by (simp add: sim_except_def length_lambdas good_metric)
  show ?thesis
    using successful_sweep_curve [OF h1 h2 h3] h1 by simp
qed

lemma replay_sim_except:
  "list_all succeeded (replay (sim_except n (Exited 0 out)) calls cmds)"
  by (induction cmds arbitrary: calls) (simp_all add: sim_except_def succeeded_def)

lemma empty_metric: "parse_metric (bytes_str []) = Inl IndexError"
  by code_simp

text \<open>
  C7 as stated asks only that the 100 runs succeed. Here all 100 runs exit with status
  0, the last one with an empty output: \<^verbatim>\<open>process\<close> raises \<^verbatim>\<open>IndexError\<close> and
  returns no curve.
\<close>

theorem unparsable_output_counterexample:
  "list_all succeeded (replay (sim_except 99 (Exited 0 [])) [] (snd (process (sim_except 99 (Exited 0 [])) [] mu_0_1))) \<and>
   length (snd (process (sim_except 99 (Exited 0 [])) [] mu_0_1)) = 100 \<and>
   fst (process (sim_except 99 (Exited 0 [])) [] mu_0_1) = Inl IndexError"
proof -
  have k: "99 < length lambdas" by (simp add: length_lambdas)
  have pre: "sweep (sim_except 99 (Exited 0 [])) mu_0_1 ([], []) [] (take 99 lambdas) =
     (Inr (map (\<lambda>l. fquot l mu_0_1) (take 99 lambdas), replicate 99 f_1_5),
      map (command mu_0_1) (take 99 lambdas))"
    by (rule sweep_sim_except) (simp_all add: mu_0_1_nonzero)
  have s: "sim_except 99 (Exited 0 []) (map (command mu_0_1) (take 99 lambdas)) (command mu_0_1 (lambdas ! 99)) = Exited 0 []"
    by (rule sim_except_at) (simp add: length_lambdas)
  have st: "sweep_step (sim_except 99 (Exited 0 [])) mu_0_1
      (map (\<lambda>l. fquot l mu_0_1) (take 99 lambdas), replicate 99 f_1_5)
      (map (command mu_0_1) (take 99 lambdas)) (lambdas ! 99) =
     (Inl IndexError, map (command mu_0_1) (take 99 lambdas) @ [command mu_0_1 (lambdas ! 99)])"
    using s by (simp add: sweep_step_def check_output_def fdiv_quotient mu_0_1_nonzero empty_metric)
  have "process (sim_except 99 (Exited 0 [])) [] mu_0_1 =
      (Inl IndexError, [] @ map (command mu_0_1) (take (Suc 99) lambdas))"
    using sweep_fail_at [OF k pre st] by (simp add: process_sweep)
  then show ?thesis
    by (simp add: replay_sim_except length_lambdas)
qed

subsection \<open>The loads\<close>

lemma valid_mu_0_1: "valid mu_0_1"
  by code_simp

lemma process_Inr_loads:
  assumes "process sim calls mu = (Inr (load, performance), c)"
  shows "load = loads mu" "\<forall>i<100. fdiv (lambdas ! i) mu = Inr (load ! i)"
proof -
  have s: "sweep sim mu ([], []) calls lambdas = (Inr (load, performance), c)"
    using assms by (simp add: process_sweep)
  from sweep_Inr [OF s] have "\<exists>qs ps. load = qs \<and> length qs = length lambdas \<and>
      (\<forall>i<length lambdas. fdiv (lambdas ! i) mu = Inr (qs ! i))"
    by auto
  then have q: "length load = length lambdas" "\<forall>i<length lambdas. fdiv (lambdas ! i) mu = Inr (load ! i)"
    by auto
  show d: "\<forall>i<100. fdiv (lambdas ! i) mu = Inr (load ! i)"
    using q(2) by (simp add: length_lambdas)
  show "load = loads mu"
  proof (rule nth_equalityI)
    show "length load = length (loads mu)" using q(1) by (simp add: loads_def)
    fix i assume "i < length load"
    then have i: "i < 100" using q(1) by (simp add: length_lambdas)
    then have "fdiv (lambdas ! i) mu = Inr (load ! i)" using d by simp
    then show "load ! i = loads mu ! i"
      using i by (simp add: loads_def length_lambdas fquot_def)
  qed
qed

text \<open>
  C6, as amended. A sweep that ends without an exception has 100 loads, and the load
  number \<open>i\<close> is the float quotient \<^verbatim>\<open>l/mu\<close> of the arrival rate number \<open>i\<close> by
  \<open>mu\<close>: the exact quotient, correctly rounded. For a finite positive \<open>mu\<close> the
  loads increase strictly when no quotient overflows. For \<open>mu\<close> = 0.1 the loads go
  from the float 0.01 to the float 1.0, increase strictly, and the load number \<open>i\<close>
  lies within \<open>2\<^sup>-\<^sup>5\<^sup>1\<close>, relatively, of \<open>(i + 1) / 100\<close>: the steps are equal
  up to rounding.
\<close>

theorem loads_of_a_sweep:
  assumes "process sim calls mu = (Inr (load, performance), c)"
  shows "length load = 100 \<and> (\<forall>i<100. fdiv (lambdas ! i) mu = Inr (load ! i)) \<and>
         (\<forall>n f. mu = Finite False n f \<and> 0 < n \<and> valid mu \<and> (\<forall>i<100. is_finite (load ! i)) \<longrightarrow>
            (\<forall>i j. i < j \<and> j < 100 \<longrightarrow> float_lt (load ! i) (load ! j))) \<and>
         (mu = mu_0_1 \<longrightarrow>
            load ! 0 = decimal False 1 (- 2) \<and> load ! 99 = float_of_int 1 \<and>
            (\<forall>i j. i < j \<and> j < 100 \<longrightarrow> float_lt (load ! i) (load ! j)) \<and>
            (\<forall>i<100. \<bar>valof (load ! i) - (real i + 1) / 100\<bar> \<le> (real i + 1) / 100 * 2 powi (- 51)))"
proof -
  note l = process_Inr_loads [OF assms]
  have inc: "float_lt (load ! i) (load ! j)"
    if "mu = Finite False n f" "0 < n" "valid mu" "\<forall>i<100. is_finite (load ! i)" "i < j" "j < 100"
    for n f i j
    using loads_increasing [of n f i j] that l(1) by simp
  have fin: "\<forall>i<100. is_finite (loads mu_0_1 ! i)"
    using loads_0_1_finite by (simp add: list_all_length loads_def length_lambdas)
  have inc01: "float_lt (loads mu_0_1 ! i) (loads mu_0_1 ! j)" if "i < j" "j < 100" for i j
    using loads_increasing [of 7205759403792794 "- 56" i j] fin valid_mu_0_1 that
    by (simp add: mu_0_1_form)
  have near: "\<bar>valof (loads mu_0_1 ! i) - (real i + 1) / 100\<bar> \<le> (real i + 1) / 100 * 2 powi (- 51)"
    if "i < 100" for i
  proof -
    have "near_fraction 100 ([1..100] ! i) (loads mu_0_1 ! i)"
      using list_all2_nthD2 [OF loads_0_1_grid, of i] that by (simp add: loads_def length_lambdas)
    moreover have "[1..100] ! i = 1 + int i" using that by simp
    ultimately have "near_fraction 100 (1 + int i) (loads mu_0_1 ! i)" by simp
    from near_fraction_real [OF this] show ?thesis by (simp add: add.commute)
  qed
  show ?thesis
  proof (intro conjI allI impI)
    show "length load = 100" using l(1) by (simp add: loads_def length_lambdas)
    show "fdiv (lambdas ! i) mu = Inr (load ! i)" if "i < 100" for i
      using l(2) that by simp
    show "float_lt (load ! i) (load ! j)"
      if "mu = Finite False n f \<and> 0 < n \<and> valid mu \<and> (\<forall>i<100. is_finite (load ! i))" "i < j \<and> j < 100"
      for n f i j
      using that inc [of n f i j] by blast
    show "load ! 0 = decimal False 1 (- 2)" if "mu = mu_0_1"
      using that l(1) loads_0_1_ends by simp
    show "load ! 99 = float_of_int 1" if "mu = mu_0_1"
      using that l(1) loads_0_1_ends by simp
    show "float_lt (load ! i) (load ! j)" if "mu = mu_0_1" "i < j \<and> j < 100" for i j
      using that l(1) inc01 [of i j] by simp
    show "\<bar>valof (load ! i) - (real i + 1) / 100\<bar> \<le> (real i + 1) / 100 * 2 powi (- 51)"
      if "mu = mu_0_1" "i < 100" for i
      using that l(1) near [of i] by simp
  qed
qed

theorem loads_of_a_sweep_witness:
  "process (sim_except 100 CannotStart) [] mu_0_1 =
     (Inr (loads mu_0_1, replicate 100 f_1_5), map (command mu_0_1) lambdas) \<and>
   length (loads mu_0_1) = 100 \<and>
   fdiv (lambdas ! 4) mu_0_1 = Inr (loads mu_0_1 ! 4) \<and>
   mu_0_1 = Finite False 7205759403792794 (- 56) \<and> valid mu_0_1 \<and>
   is_finite (loads mu_0_1 ! 4) \<and>
   float_lt (loads mu_0_1 ! 4) (loads mu_0_1 ! 5) \<and>
   loads mu_0_1 ! 0 = decimal False 1 (- 2) \<and> loads mu_0_1 ! 99 = float_of_int 1 \<and>
   \<bar>valof (loads mu_0_1 ! 4) - (real 4 + 1) / 100\<bar> \<le> (real 4 + 1) / 100 * 2 powi (- 51)"
proof -
  have p: "process (sim_except 100 CannotStart) [] mu_0_1 =
      (Inr (loads mu_0_1, replicate 100 f_1_5), map (command mu_0_1) lambdas)"
    by (rule process_sim_except_ok) (simp_all add: mu_0_1_nonzero)
  have fin: "\<forall>i<100. is_finite (loads mu_0_1 ! i)"
    using loads_0_1_finite by (simp add: list_all_length loads_def length_lambdas)
  have a: "(4::nat) < 100" and b: "(4::nat) < 5 \<and> (5::nat) < 100" by simp_all
  note t = loads_of_a_sweep [OF p]
  from t have 1: "length (loads mu_0_1) = 100" by (rule conjunct1)
  from t have "\<forall>i<100. fdiv (lambdas ! i) mu_0_1 = Inr (loads mu_0_1 ! i)"
    by (rule conjunct1 [OF conjunct2])
  from this [rule_format, OF a] have 2: "fdiv (lambdas ! 4) mu_0_1 = Inr (loads mu_0_1 ! 4)" .
  from t have "mu_0_1 = mu_0_1 \<longrightarrow>
            loads mu_0_1 ! 0 = decimal False 1 (- 2) \<and> loads mu_0_1 ! 99 = float_of_int 1 \<and>
            (\<forall>i j. i < j \<and> j < 100 \<longrightarrow> float_lt (loads mu_0_1 ! i) (loads mu_0_1 ! j)) \<and>
            (\<forall>i<100. \<bar>valof (loads mu_0_1 ! i) - (real i + 1) / 100\<bar> \<le> (real i + 1) / 100 * 2 powi (- 51))"
    by (rule conjunct2 [OF conjunct2 [OF conjunct2]])
  then have 3: "loads mu_0_1 ! 0 = decimal False 1 (- 2)" "loads mu_0_1 ! 99 = float_of_int 1"
    "\<forall>i j. i < j \<and> j < 100 \<longrightarrow> float_lt (loads mu_0_1 ! i) (loads mu_0_1 ! j)"
    "\<forall>i<100. \<bar>valof (loads mu_0_1 ! i) - (real i + 1) / 100\<bar> \<le> (real i + 1) / 100 * 2 powi (- 51)"
    by blast+
  from 3(3) [rule_format, OF b] have 4: "float_lt (loads mu_0_1 ! 4) (loads mu_0_1 ! 5)" .
  from 3(4) [rule_format, OF a] have 5:
    "\<bar>valof (loads mu_0_1 ! 4) - (real 4 + 1) / 100\<bar> \<le> (real 4 + 1) / 100 * 2 powi (- 51)" .
  from fin [rule_format, OF a] have 6: "is_finite (loads mu_0_1 ! 4)" .
  show ?thesis
    using p 1 2 mu_0_1_form valid_mu_0_1 6 4 3(1) 3(2) 5 by blast
qed

lemma mu_tiny_nonzero: "\<not> is_zero mu_tiny"
  by (simp add: mu_tiny_form is_zero_def)

text \<open>
  C6 as stated fails for the positive service rate \<^verbatim>\<open>5e-324\<close>: every quotient
  overflows, the loads are all \<^verbatim>\<open>inf\<close> and do not increase. And for 0.1 the steps
  are not equal: the second load minus the first is not the third minus the second.
\<close>

theorem loads_counterexample:
  "process (sim_except 100 CannotStart) [] mu_tiny =
     (Inr (loads mu_tiny, replicate 100 f_1_5), map (command mu_tiny) lambdas) \<and>
   mu_tiny = Finite False 1 (- 1074) \<and> valid mu_tiny \<and> float_lt (Finite False 0 (- 1074)) mu_tiny \<and>
   loads mu_tiny ! 0 = Infinity False \<and> loads mu_tiny ! 1 = Infinity False \<and>
   \<not> float_lt (loads mu_tiny ! 0) (loads mu_tiny ! 1) \<and>
   process (sim_except 100 CannotStart) [] mu_0_1 =
     (Inr (loads mu_0_1, replicate 100 f_1_5), map (command mu_0_1) lambdas) \<and>
   valof (loads mu_0_1 ! 1) - valof (loads mu_0_1 ! 0) \<noteq> valof (loads mu_0_1 ! 2) - valof (loads mu_0_1 ! 1)"
proof -
  have p: "process (sim_except 100 CannotStart) [] mu_tiny =
      (Inr (loads mu_tiny, replicate 100 f_1_5), map (command mu_tiny) lambdas)"
    by (rule process_sim_except_ok) (simp_all add: mu_tiny_nonzero)
  have q: "process (sim_except 100 CannotStart) [] mu_0_1 =
      (Inr (loads mu_0_1, replicate 100 f_1_5), map (command mu_0_1) lambdas)"
    by (rule process_sim_except_ok) (simp_all add: mu_0_1_nonzero)
  have v: "valid mu_tiny" "float_lt (Finite False 0 (- 1074)) mu_tiny"
    by (simp_all add: mu_tiny_form valid_def signed_def)
  show ?thesis
    using p q v mu_tiny_form loads_tiny unequal_steps by simp
qed

subsection \<open>The command lines\<close>

lemma process_calls:
  "\<exists>n. 1 \<le> n \<and> n \<le> 100 \<and> snd (process sim calls mu) = calls @ map (command mu) (take n lambdas)"
proof -
  have ne: "lambdas \<noteq> []" using length_lambdas by auto
  from sweep_calls [of lambdas sim mu "([], [])" calls] obtain n where
    "n \<le> length lambdas" "lambdas \<noteq> [] \<longrightarrow> 1 \<le> n"
    "snd (sweep sim mu ([], []) calls lambdas) = calls @ map (command mu) (take n lambdas)"
    by blast
  then show ?thesis
    using ne by (intro exI [of _ n]) (simp add: process_sweep length_lambdas)
qed

lemma process_call_nth:
  assumes "i < length (snd (process sim calls mu)) - length calls"
  shows "i < 100 \<and> snd (process sim calls mu) ! (length calls + i) = command mu (lambdas ! i)"
proof -
  from process_calls [of sim calls mu] obtain n where n: "1 \<le> n" "n \<le> 100"
    "snd (process sim calls mu) = calls @ map (command mu) (take n lambdas)" by blast
  have "i < n" using assms n by (simp add: length_lambdas)
  then show ?thesis using n by (simp add: nth_append length_lambdas)
qed

text \<open>
  C8. Every command that \<^verbatim>\<open>process\<close> runs, the one of step \<open>i\<close>, is the text
  \<^verbatim>\<open>./schedsim --topo=0 --mu=<mu> --lambda=<l> --genType=3 --procType=0\<close> with the
  service rate and the arrival rate of step \<open>i\<close> written as Python writes floats;
  \<^verbatim>\<open>topo\<close>, \<^verbatim>\<open>genType\<close> and \<^verbatim>\<open>procType\<close> are the constants 0, 3 and 0.
\<close>

theorem command_line_of_each_step:
  assumes "i < length (snd (process sim calls mu)) - length calls"
  shows "i < 100 \<and>
         snd (process sim calls mu) ! (length calls + i) =
           ''./schedsim --topo=0 --mu='' @ float_repr mu @ '' --lambda='' @ float_repr (lambdas ! i) @
           '' --genType=3 --procType=0'' \<and>
         take (length calls) (snd (process sim calls mu)) = calls \<and>
         length calls < length (snd (process sim calls mu))"
proof -
  from process_calls [of sim calls mu] obtain n where n: "1 \<le> n" "n \<le> 100"
    "snd (process sim calls mu) = calls @ map (command mu) (take n lambdas)" by blast
  have "take (length calls) (snd (process sim calls mu)) = calls \<and>
         length calls < length (snd (process sim calls mu))"
    using n by (simp add: length_lambdas)
  then show ?thesis
    using process_call_nth [OF assms] by (simp add: command_def)
qed

lemma repr_mu_0_1: "float_repr mu_0_1 = ''0.1''"
  by code_simp

lemma repr_lambda_0: "float_repr (lambdas ! 0) = ''0.001''"
  by code_simp

text \<open>The first command of \<^verbatim>\<open>process(0.1)\<close>.\<close>

theorem command_line_of_each_step_witness:
  "0 < length (snd (process (sim_except 100 CannotStart) [] mu_0_1)) - length ([] :: string list) \<and>
   snd (process (sim_except 100 CannotStart) [] mu_0_1) ! (length ([] :: string list) + 0) =
     ''./schedsim --topo=0 --mu=0.1 --lambda=0.001 --genType=3 --procType=0''"
proof -
  have p: "process (sim_except 100 CannotStart) [] mu_0_1 =
      (Inr (loads mu_0_1, replicate 100 f_1_5), map (command mu_0_1) lambdas)"
    by (rule process_sim_except_ok) (simp_all add: mu_0_1_nonzero)
  have h: "0 < length (snd (process (sim_except 100 CannotStart) [] mu_0_1)) - length ([] :: string list)"
    by (simp add: p length_lambdas)
  show ?thesis
    using command_line_of_each_step [OF h] h by (simp add: repr_mu_0_1 repr_lambda_0)
qed

text \<open>
  C9. For any two service rates (and any two simulators and histories), step \<open>i\<close>
  of both sweeps runs the command for the same arrival rate, the element \<open>i\<close> of the
  constant list \<open>lambdas\<close>, which is \<^verbatim>\<open>(i + 1)*0.001\<close>: the service rate does not
  enter the arrival rates.
\<close>

theorem sweep_independent_of_mu:
  assumes "i < length (snd (process sim1 calls1 mu1)) - length calls1"
    and "i < length (snd (process sim2 calls2 mu2)) - length calls2"
  shows "snd (process sim1 calls1 mu1) ! (length calls1 + i) = command mu1 (lambdas ! i) \<and>
         snd (process sim2 calls2 mu2) ! (length calls2 + i) = command mu2 (lambdas ! i) \<and>
         lambdas ! i = fmul (float_of_int (int i + 1)) lit_0_001"
  using process_call_nth [OF assms(1)] process_call_nth [OF assms(2)]
  by (simp add: lambdas_nth)

lemma f_1_5_nonzero: "\<not> is_zero f_1_5"
  by code_simp

theorem sweep_independent_of_mu_witness:
  "7 < length (snd (process (sim_except 100 CannotStart) [] mu_0_1)) - length ([] :: string list) \<and>
   7 < length (snd (process (sim_except 100 CannotStart) [] f_1_5)) - length ([] :: string list) \<and>
   snd (process (sim_except 100 CannotStart) [] mu_0_1) ! (length ([] :: string list) + 7) = command mu_0_1 (lambdas ! 7) \<and>
   snd (process (sim_except 100 CannotStart) [] f_1_5) ! (length ([] :: string list) + 7) = command f_1_5 (lambdas ! 7) \<and>
   lambdas ! 7 = fmul (float_of_int (int 7 + 1)) lit_0_001"
proof -
  have p1: "process (sim_except 100 CannotStart) [] mu_0_1 =
      (Inr (loads mu_0_1, replicate 100 f_1_5), map (command mu_0_1) lambdas)"
    by (rule process_sim_except_ok) (simp_all add: mu_0_1_nonzero)
  have p2: "process (sim_except 100 CannotStart) [] f_1_5 =
      (Inr (loads f_1_5, replicate 100 f_1_5), map (command f_1_5) lambdas)"
    by (rule process_sim_except_ok) (simp_all add: f_1_5_nonzero)
  have h1: "7 < length (snd (process (sim_except 100 CannotStart) [] mu_0_1)) - length ([] :: string list)"
    by (simp add: p1 length_lambdas)
  have h2: "7 < length (snd (process (sim_except 100 CannotStart) [] f_1_5)) - length ([] :: string list)"
    by (simp add: p2 length_lambdas)
  show ?thesis
    using sweep_independent_of_mu [OF h1 h2] h1 h2 by simp
qed

subsection \<open>The second conversion of the performance list\<close>

text \<open>
  C10. The comprehension \<^verbatim>\<open>[float(i) for i in performance]\<close> after the loop is the
  identity: every element of the list is already a float, \<^verbatim>\<open>float\<close> of a float
  returns it and does not raise, so the list returned is the list the loop built, and
  \<^verbatim>\<open>process\<close> returns what its loop returns.
\<close>

theorem reconversion_is_identity:
  "map_result float_builtin (map Float performance) = Inr performance \<and>
   process sim calls mu = sweep sim mu ([], []) calls lambdas"
proof
  show "map_result float_builtin (map Float performance) = Inr performance"
    by (induction performance) simp_all
  show "process sim calls mu = sweep sim mu ([], []) calls lambdas"
    by (rule process_sweep)
qed

end
